theory Spec2Isabelle
  imports Complex_Main
begin

section \<open>Python values\<close>

text \<open>
  The scoring engine of \<^verbatim>\<open>backend/tasks_app/scoring.py\<close> receives task dictionaries whose
  values are dynamically typed. The values that reach it are those of a decoded JSON
  document and of the serializer's validated data: \<^verbatim>\<open>None\<close>, booleans, integers, floats,
  strings, \<^verbatim>\<open>datetime.date\<close> objects (as their day ordinal), lists and dictionaries with
  string keys (in insertion order).

  Python floats are modelled as exact real numbers: the rounding error of float arithmetic,
  NaN and the infinities are outside the model.
\<close>

datatype pyval =
    PNone
  | PBool bool
  | PInt int
  | PFloat real
  | PStr string
  | PDate int
  | PList "pyval list"
  | PDict "(string \<times> pyval) list"

datatype error = TypeError | ValueError | OverflowError | RecursionError

text \<open>
  Library behaviour the module relies on and that is not part of the repository is a
  parameter: \<^verbatim>\<open>dateutil.parser.parse(val).date()\<close> (\<open>None\<close> when it raises), the parsing done
  by \<^verbatim>\<open>int(str)\<close> and \<^verbatim>\<open>float(str)\<close> (\<open>None\<close> when they raise \<^verbatim>\<open>ValueError\<close>), and the text
  \<^verbatim>\<open>str\<close> gives for floats, dates, lists and dictionaries.
\<close>

record pylib =
  parse_date :: "pyval \<Rightarrow> int option"
  int_of_str :: "string \<Rightarrow> int option"
  float_of_str :: "string \<Rightarrow> real option"
  repr :: "pyval \<Rightarrow> string"

fun truthy :: "pyval \<Rightarrow> bool" where
  "truthy PNone = False"
| "truthy (PBool b) = b"
| "truthy (PInt n) = (n \<noteq> 0)"
| "truthy (PFloat r) = (r \<noteq> 0)"
| "truthy (PStr s) = (s \<noteq> [])"
| "truthy (PDate d) = True"
| "truthy (PList xs) = (xs \<noteq> [])"
| "truthy (PDict kvs) = (kvs \<noteq> [])"

definition py_or :: "pyval \<Rightarrow> pyval \<Rightarrow> pyval" where
  \<comment> \<open>\<^verbatim>\<open>a or b\<close>\<close>
  "py_or a b = (if truthy a then a else b)"

type_synonym raw_task = "string \<rightharpoonup> pyval"

definition dict_get :: "raw_task \<Rightarrow> string \<Rightarrow> pyval" where
  \<comment> \<open>\<^verbatim>\<open>t.get(k)\<close>\<close>
  "dict_get t k = (case t k of None \<Rightarrow> PNone | Some v \<Rightarrow> v)"

definition digit_char :: "nat \<Rightarrow> char" where
  "digit_char d = ''0123456789'' ! d"

fun str_nat :: "nat \<Rightarrow> string" where
  "str_nat n = (if n < 10 then [digit_char n] else str_nat (n div 10) @ [digit_char (n mod 10)])"

declare str_nat.simps [simp del]

definition str_int :: "int \<Rightarrow> string" where
  "str_int i = (if i < 0 then ''-'' @ str_nat (nat (- i)) else str_nat (nat i))"

definition py_str :: "pylib \<Rightarrow> pyval \<Rightarrow> string" where
  \<comment> \<open>\<^verbatim>\<open>str(v)\<close>\<close>
  "py_str lib v =
     (case v of
        PStr s \<Rightarrow> s
      | PInt n \<Rightarrow> str_int n
      | PBool b \<Rightarrow> (if b then ''True'' else ''False'')
      | PNone \<Rightarrow> ''None''
      | _ \<Rightarrow> repr lib v)"

definition py_int :: "pylib \<Rightarrow> pyval \<Rightarrow> error + int" where
  \<comment> \<open>\<^verbatim>\<open>int(v)\<close>: a float is truncated towards zero\<close>
  "py_int lib v =
     (case v of
        PInt n \<Rightarrow> Inr n
      | PBool b \<Rightarrow> Inr (if b then 1 else 0)
      | PFloat r \<Rightarrow> Inr (if 0 \<le> r then \<lfloor>r\<rfloor> else \<lceil>r\<rceil>)
      | PStr s \<Rightarrow> (case int_of_str lib s of None \<Rightarrow> Inl ValueError | Some n \<Rightarrow> Inr n)
      | _ \<Rightarrow> Inl TypeError)"

definition py_float :: "pylib \<Rightarrow> pyval \<Rightarrow> error + real" where
  \<comment> \<open>\<^verbatim>\<open>float(v)\<close>: an integer that rounds beyond the largest float raises \<^verbatim>\<open>OverflowError\<close>\<close>
  "py_float lib v =
     (case v of
        PFloat r \<Rightarrow> Inr r
      | PInt n \<Rightarrow> (if \<bar>n\<bar> < 2 ^ 1024 - 2 ^ 970 then Inr (real_of_int n) else Inl OverflowError)
      | PBool b \<Rightarrow> Inr (if b then 1 else 0)
      | PStr s \<Rightarrow> (case float_of_str lib s of None \<Rightarrow> Inl ValueError | Some r \<Rightarrow> Inr r)
      | _ \<Rightarrow> Inl TypeError)"

definition py_iter :: "pyval \<Rightarrow> error + pyval list" where
  \<comment> \<open>the items a \<^verbatim>\<open>for\<close> loop over the value sees; \<^verbatim>\<open>TypeError\<close> when it is not iterable\<close>
  "py_iter v =
     (case v of
        PList xs \<Rightarrow> Inr xs
      | PStr s \<Rightarrow> Inr (map (\<lambda>c. PStr [c]) s)
      | PDict kvs \<Rightarrow> Inr (map (\<lambda>kv. PStr (fst kv)) kvs)
      | _ \<Rightarrow> Inl TypeError)"

definition round_half_even :: "real \<Rightarrow> int" where
  "round_half_even x =
     (let f = \<lfloor>x\<rfloor>; d = x - of_int f
      in if d < 1 / 2 then f else if 1 / 2 < d then f + 1 else if even f then f else f + 1)"

definition py_round4 :: "real \<Rightarrow> real" where
  \<comment> \<open>\<^verbatim>\<open>round(x, 4)\<close> on the exact value, ties to even; on a float that only approximates a
      decimal tie, Python rounds to the side the float lies on\<close>
  "py_round4 x = of_int (round_half_even (x * 10000)) / 10000"

section \<open>Normalized tasks\<close>

text \<open>
  The normalization pass of \<^verbatim>\<open>compute_scores\<close> copies each input dictionary and overwrites
  six keys with values of a fixed type. The later passes read the copy with \<^verbatim>\<open>t.get(k, default)\<close>
  and test \<^verbatim>\<open>k not in t\<close> and \<^verbatim>\<open>t[k] is None\<close>; a field that is \<open>None\<close> here stands for a key
  that is absent or holds \<^verbatim>\<open>None\<close>. Keys other than these six are copied and never read, and
  are left out.
\<close>

record task =
  task_id :: string
  title :: pyval
  importance :: "int option"
  estimated_hours :: "real option"
  due_date :: "int option"
  dependencies :: "string list option"

definition parse_due_date :: "pylib \<Rightarrow> pyval \<Rightarrow> int option" where
  "parse_due_date lib val =
     (if val = PNone \<or> val = PStr [] then None
      else case val of PDate d \<Rightarrow> Some d | _ \<Rightarrow> parse_date lib val)"

definition default_hours :: real where
  "default_hours = 4"

definition derive_id :: "pylib \<Rightarrow> nat \<Rightarrow> raw_task \<Rightarrow> string" where
  \<comment> \<open>\<^verbatim>\<open>str(t.get('id') or t.get('title') or f"task-{i}")\<close>\<close>
  "derive_id lib i t =
     py_str lib (py_or (py_or (dict_get t ''id'') (dict_get t ''title'')) (PStr (''task-'' @ str_nat i)))"

definition clean_task :: "pylib \<Rightarrow> nat \<Rightarrow> raw_task \<Rightarrow> error + task" where
  \<comment> \<open>the body of the normalization loop; the only statement outside a \<^verbatim>\<open>try\<close> that can raise
      is the iteration over the dependencies\<close>
  "clean_task lib i t =
     (let tid = derive_id lib i t;
          ttl = py_or (dict_get t ''title'') (PStr (''Untitled '' @ str_nat i));
          imp = (case py_int lib (py_or (dict_get t ''importance'') (PInt 5)) of
                   Inr n \<Rightarrow> n | Inl e \<Rightarrow> 5);
          hrs = (case py_float lib (if dict_get t ''estimated_hours'' \<noteq> PNone
                                    then dict_get t ''estimated_hours'' else PFloat default_hours) of
                   Inr h \<Rightarrow> h | Inl e \<Rightarrow> default_hours);
          due = parse_due_date lib (dict_get t ''due_date'')
      in case py_iter (py_or (dict_get t ''dependencies'') (PList [])) of
           Inl e \<Rightarrow> Inl e
         | Inr xs \<Rightarrow>
             Inr \<lparr>task_id = tid, title = ttl, importance = Some imp, estimated_hours = Some hrs,
                  due_date = due, dependencies = Some (map (py_str lib) xs)\<rparr>)"

text \<open>
  A Python dictionary keeps its keys in insertion order; assigning to a key that is present
  replaces the value and leaves the key where it is.
\<close>

fun dict_set :: "'k \<Rightarrow> 'v \<Rightarrow> ('k \<times> 'v) list \<Rightarrow> ('k \<times> 'v) list" where
  "dict_set k v [] = [(k, v)]"
| "dict_set k v (p # ps) = (if fst p = k then (k, v) # ps else p # dict_set k v ps)"

fun normalize :: "pylib \<Rightarrow> nat \<Rightarrow> raw_task list \<Rightarrow> (string \<times> task) list \<Rightarrow> error + (string \<times> task) list" where
  \<comment> \<open>\<^verbatim>\<open>for i, t in enumerate(task_list): ... id_map[tid] = cleaned\<close>\<close>
  "normalize lib i [] id_map = Inr id_map"
| "normalize lib i (t # ts) id_map =
     (case clean_task lib i t of
        Inl e \<Rightarrow> Inl e
      | Inr cleaned \<Rightarrow> normalize lib (Suc i) ts (dict_set (task_id cleaned) cleaned id_map))"

section \<open>Cycle detection\<close>

text \<open>
  \<^verbatim>\<open>visited\<close> holds 1 for a node on the current path and 2 for a finished one. The nested
  \<^verbatim>\<open>dfs\<close> appends to and pops from one shared list; every call pops what it pushed, so the
  list is passed as an argument. The boolean \<^verbatim>\<open>dfs\<close> returns is discarded by every caller
  and is left out.
\<close>

datatype colour = InProgress | Done

record dstate =
  visited :: "string \<rightharpoonup> colour"
  in_cycle :: "string \<rightharpoonup> bool"
  cycles :: "string set list"

type_synonym graph = "(string \<times> string list) list"

definition graph_get :: "graph \<Rightarrow> string \<Rightarrow> string list" where
  \<comment> \<open>\<^verbatim>\<open>graph.get(node, [])\<close>\<close>
  "graph_get g node = (case map_of g node of None \<Rightarrow> [] | Some nbs \<Rightarrow> nbs)"

definition record_cycle :: "string list \<Rightarrow> dstate \<Rightarrow> dstate" where
  "record_cycle cyc st =
     st\<lparr>cycles := cycles st @ [set cyc],
        in_cycle := fold (\<lambda>n m. m(n \<mapsto> True)) cyc (in_cycle st)\<rparr>"

function dfs :: "graph \<Rightarrow> string \<Rightarrow> string list \<Rightarrow> dstate \<Rightarrow> dstate"
  and dfs_each :: "graph \<Rightarrow> string list \<Rightarrow> string list \<Rightarrow> dstate \<Rightarrow> dstate" where
  "dfs g node stack st =
     (if node \<notin> fst ` set g then st
      else if visited st node = Some InProgress then
        (if node \<in> set stack then record_cycle (dropWhile (\<lambda>n. n \<noteq> node) stack) st else st)
      else if visited st node = Some Done then st
      else
        let st1 = st\<lparr>visited := (visited st)(node \<mapsto> InProgress)\<rparr>;
            st2 = dfs_each g (graph_get g node) (stack @ [node]) st1
        in st2\<lparr>visited := (visited st2)(node \<mapsto> Done)\<rparr>)"
| "dfs_each g [] stack st = st"
| "dfs_each g (nb # nbs) stack st = dfs_each g nbs stack (dfs g nb stack st)"
  by pat_completeness auto

definition unvisited :: "graph \<Rightarrow> dstate \<Rightarrow> nat" where
  "unvisited g st = card {k \<in> fst ` set g. visited st k = None}"

fun visit_all :: "graph \<Rightarrow> string list \<Rightarrow> dstate \<Rightarrow> dstate" where
  \<comment> \<open>\<^verbatim>\<open>for n in graph: if visited.get(n) is None: dfs(n, [])\<close>\<close>
  "visit_all g [] st = st"
| "visit_all g (n # ns) st = visit_all g ns (if visited st n = None then dfs g n [] st else st)"

definition graph_of :: "(string \<times> task) list \<Rightarrow> graph" where
  \<comment> \<open>\<^verbatim>\<open>{tid: list(task.get('dependencies', [])) for tid, task in tasks.items()}\<close>\<close>
  "graph_of tasks =
     map (\<lambda>(tid, task). (tid, case dependencies task of None \<Rightarrow> [] | Some ds \<Rightarrow> ds)) tasks"

definition detect_cycles :: "(string \<times> task) list \<Rightarrow> string set list \<times> (string \<rightharpoonup> bool)" where
  "detect_cycles tasks =
     (let g = graph_of tasks;
          st0 = \<lparr>visited = Map.empty,
                 in_cycle = map_of (map (\<lambda>(tid, task). (tid, False)) tasks),
                 cycles = []\<rparr>;
          st = visit_all g (map fst g) st0
      in (cycles st, in_cycle st))"

text \<open>
  Every call of \<^verbatim>\<open>dfs\<close> takes a frame of the interpreter's call stack, and a call made when
  no frame is left raises \<^verbatim>\<open>RecursionError\<close>. \<open>dfs\<close> above is the search with no limit on the
  nesting of calls. \<open>dfs_lim d\<close> is the same search when \<open>d\<close> more nested calls of \<^verbatim>\<open>dfs\<close> are
  possible; the loop over the dependencies runs inside its caller's frame, and calls of
  built-in methods are not counted. Where \<open>dfs_lim\<close> returns, it returns what \<open>dfs\<close> does
  (\<open>dfs_lim_refines\<close> below); the scoring pass is modelled on \<open>detect_cycles\<close>, that is, for
  runs in which the limit is not reached.
\<close>

fun dfs_lim :: "nat \<Rightarrow> graph \<Rightarrow> string \<Rightarrow> string list \<Rightarrow> dstate \<Rightarrow> error + dstate"
  and dfs_each_lim :: "nat \<Rightarrow> graph \<Rightarrow> string list \<Rightarrow> string list \<Rightarrow> dstate \<Rightarrow> error + dstate" where
  "dfs_lim 0 g node stack st = Inl RecursionError"
| "dfs_lim (Suc d) g node stack st =
     (if node \<notin> fst ` set g then Inr st
      else if visited st node = Some InProgress then
        Inr (if node \<in> set stack then record_cycle (dropWhile (\<lambda>n. n \<noteq> node) stack) st else st)
      else if visited st node = Some Done then Inr st
      else
        case dfs_each_lim d g (graph_get g node) (stack @ [node])
               (st\<lparr>visited := (visited st)(node \<mapsto> InProgress)\<rparr>) of
          Inl e \<Rightarrow> Inl e
        | Inr st2 \<Rightarrow> Inr (st2\<lparr>visited := (visited st2)(node \<mapsto> Done)\<rparr>))"
| "dfs_each_lim d g [] stack st = Inr st"
| "dfs_each_lim d g (nb # nbs) stack st =
     (case dfs_lim d g nb stack st of
        Inl e \<Rightarrow> Inl e
      | Inr st' \<Rightarrow> dfs_each_lim d g nbs stack st')"

fun visit_all_lim :: "nat \<Rightarrow> graph \<Rightarrow> string list \<Rightarrow> dstate \<Rightarrow> error + dstate" where
  "visit_all_lim d g [] st = Inr st"
| "visit_all_lim d g (n # ns) st =
     (if visited st n = None then
        case dfs_lim d g n [] st of
          Inl e \<Rightarrow> Inl e
        | Inr st' \<Rightarrow> visit_all_lim d g ns st'
      else visit_all_lim d g ns st)"

definition detect_cycles_lim ::
  "nat \<Rightarrow> (string \<times> task) list \<Rightarrow> error + string set list \<times> (string \<rightharpoonup> bool)" where
  "detect_cycles_lim depth tasks =
     (let g = graph_of tasks;
          st0 = \<lparr>visited = Map.empty,
                 in_cycle = map_of (map (\<lambda>(tid, task). (tid, False)) tasks),
                 cycles = []\<rparr>
      in case visit_all_lim depth g (map fst g) st0 of
           Inl e \<Rightarrow> Inl e
         | Inr st \<Rightarrow> Inr (cycles st, in_cycle st))"

section \<open>Scoring\<close>

record weights =
  w_urgency :: real
  w_importance :: real
  w_effort :: real
  w_dependency :: real

definition smart_balance :: weights where
  "smart_balance = \<lparr>w_urgency = 35 / 100, w_importance = 35 / 100, w_effort = 15 / 100, w_dependency = 15 / 100\<rparr>"

definition base_weights :: "string \<rightharpoonup> weights" where
  "base_weights =
     [''smart_balance'' \<mapsto> smart_balance,
      ''fastest'' \<mapsto> \<lparr>w_urgency = 2 / 10, w_importance = 2 / 10, w_effort = 45 / 100, w_dependency = 15 / 100\<rparr>,
      ''high_impact'' \<mapsto> \<lparr>w_urgency = 2 / 10, w_importance = 6 / 10, w_effort = 1 / 10, w_dependency = 1 / 10\<rparr>,
      ''deadline'' \<mapsto> \<lparr>w_urgency = 7 / 10, w_importance = 15 / 100, w_effort = 1 / 10, w_dependency = 5 / 100\<rparr>]"

definition override :: "(string \<rightharpoonup> real) \<Rightarrow> string \<Rightarrow> real \<Rightarrow> real" where
  "override m k x = (case m k of None \<Rightarrow> x | Some y \<Rightarrow> y)"

definition select_weights :: "string \<Rightarrow> (string \<rightharpoonup> real) option \<Rightarrow> weights" where
  \<comment> \<open>\<^verbatim>\<open>w = base_weights.get(strategy, base_weights['smart_balance']).copy()\<close>, then
      \<^verbatim>\<open>if weights: w.update(weights)\<close>; of the updated dictionary only the four keys are read\<close>
  "select_weights strategy ws =
     (let w = (case base_weights strategy of None \<Rightarrow> smart_balance | Some b \<Rightarrow> b)
      in case ws of
           None \<Rightarrow> w
         | Some m \<Rightarrow>
             \<lparr>w_urgency = override m ''urgency'' (w_urgency w),
              w_importance = override m ''importance'' (w_importance w),
              w_effort = override m ''effort'' (w_effort w),
              w_dependency = override m ''dependency'' (w_dependency w)\<rparr>)"

definition task_deps :: "task \<Rightarrow> string list" where
  \<comment> \<open>\<^verbatim>\<open>t.get('dependencies', [])\<close>\<close>
  "task_deps t = (case dependencies t of None \<Rightarrow> [] | Some ds \<Rightarrow> ds)"

definition bump :: "string \<Rightarrow> (string \<rightharpoonup> nat) \<Rightarrow> (string \<rightharpoonup> nat)" where
  \<comment> \<open>\<^verbatim>\<open>if dep in dependents_count: dependents_count[dep] += 1\<close>\<close>
  "bump dep dc = (case dc dep of None \<Rightarrow> dc | Some n \<Rightarrow> dc(dep \<mapsto> n + 1))"

definition dependents_count :: "(string \<times> task) list \<Rightarrow> (string \<rightharpoonup> nat)" where
  "dependents_count id_map =
     fold (\<lambda>(tid, t) dc. fold bump (task_deps t) dc) id_map
       (map_of (map (\<lambda>(tid, t). (tid, 0)) id_map))"

definition count_get :: "(string \<rightharpoonup> nat) \<Rightarrow> string \<Rightarrow> nat" where
  \<comment> \<open>\<^verbatim>\<open>dependents_count.get(tid, 0)\<close>\<close>
  "count_get dc tid = (case dc tid of None \<Rightarrow> 0 | Some n \<Rightarrow> n)"

fun py_max :: "nat list \<Rightarrow> nat" where
  "py_max [] = 0"
| "py_max (x # xs) = fold max xs x"

definition max_dependents :: "(string \<times> task) list \<Rightarrow> (string \<rightharpoonup> nat) \<Rightarrow> nat" where
  \<comment> \<open>\<^verbatim>\<open>max(dependents_count.values()) if dependents_count else 1\<close>\<close>
  "max_dependents id_map dc =
     (if id_map = [] then 1 else py_max (map (\<lambda>(tid, t). count_get dc tid) id_map))"

definition urgency_score :: "int \<Rightarrow> task \<Rightarrow> real" where
  "urgency_score today t =
     (case due_date t of
        None \<Rightarrow> 0
      | Some d \<Rightarrow>
          let days = d - today
          in if days < 0 then min (99 / 100) (9 / 10 + real_of_int (min 30 (- days)) / 100)
             else min 1 (max 0 (1 - real_of_int days / 30)))"

definition importance_score :: "task \<Rightarrow> real" where
  "importance_score t =
     real_of_int (max 1 (min 10 (case importance t of None \<Rightarrow> 5 | Some n \<Rightarrow> n))) / 10"

definition task_hours :: "task \<Rightarrow> real" where
  \<comment> \<open>\<^verbatim>\<open>max(0.1, float(t.get('estimated_hours') or default_hours))\<close>\<close>
  "task_hours t =
     max (1 / 10) (case estimated_hours t of
                     None \<Rightarrow> default_hours
                   | Some h \<Rightarrow> if h \<noteq> 0 then h else default_hours)"

definition effort_score :: "task \<Rightarrow> real" where
  "effort_score t =
     (let hours = task_hours t
      in if hours \<le> 1 then 1 else if 16 \<le> hours then 0 else 1 - (hours - 1) / 15)"

definition dependency_score :: "(string \<rightharpoonup> nat) \<Rightarrow> nat \<Rightarrow> string \<Rightarrow> real" where
  "dependency_score dc maxd tid = (if 0 < maxd then real (count_get dc tid) / real maxd else 0)"

definition weighted_sum :: "weights \<Rightarrow> real \<Rightarrow> real \<Rightarrow> real \<Rightarrow> real \<Rightarrow> real" where
  "weighted_sum w u i e d = w_urgency w * u + w_importance w * i + w_effort w * e + w_dependency w * d"

definition aggregate :: "weights \<Rightarrow> int \<Rightarrow> (string \<rightharpoonup> nat) \<Rightarrow> nat \<Rightarrow> string \<times> task \<Rightarrow> real" where
  \<comment> \<open>\<^verbatim>\<open>final\<close> as the weighted sum assigns it\<close>
  "aggregate w today dc maxd p =
     weighted_sum w (urgency_score today (snd p)) (importance_score (snd p)) (effort_score (snd p))
       (dependency_score dc maxd (fst p))"

definition flagged :: "(string \<rightharpoonup> bool) \<Rightarrow> string \<Rightarrow> bool" where
  \<comment> \<open>\<^verbatim>\<open>if in_cycle.get(tid):\<close>\<close>
  "flagged ic tid = (ic tid = Some True)"

definition final_score :: "weights \<Rightarrow> int \<Rightarrow> (string \<rightharpoonup> nat) \<Rightarrow> nat \<Rightarrow> (string \<rightharpoonup> bool) \<Rightarrow> string \<times> task \<Rightarrow> real" where
  \<comment> \<open>\<^verbatim>\<open>final\<close> as \<^verbatim>\<open>round\<close> receives it\<close>
  "final_score w today dc maxd ic p =
     (if flagged ic (fst p) then aggregate w today dc maxd p * (9 / 10) else aggregate w today dc maxd p)"

record subscores =
  s_urgency :: real
  s_importance :: real
  s_effort :: real
  s_dependency :: real

text \<open>
  A result carries every key of the source's result dictionary but \<^verbatim>\<open>explanation\<close>, a text
  that formats floats and that nothing else reads.
\<close>

record result =
  r_id :: string
  r_title :: pyval
  r_raw :: task
  r_score :: real
  r_subscores :: subscores
  r_issues :: "string list"

definition task_issues :: "(string \<rightharpoonup> bool) \<Rightarrow> string \<times> task \<Rightarrow> string list" where
  "task_issues ic p =
     (if flagged ic (fst p) then [''circular_dependency''] else [])
     @ (if due_date (snd p) = None then [''no_due_date''] else [])
     @ (if estimated_hours (snd p) = None then [''no_estimated_hours''] else [])"

definition score_task :: "weights \<Rightarrow> int \<Rightarrow> (string \<rightharpoonup> nat) \<Rightarrow> nat \<Rightarrow> (string \<rightharpoonup> bool) \<Rightarrow> string \<times> task \<Rightarrow> result" where
  \<comment> \<open>the body of \<^verbatim>\<open>for tid, t in id_map.items()\<close>\<close>
  "score_task w today dc maxd ic p =
     \<lparr>r_id = fst p,
      r_title = title (snd p),
      r_raw = snd p,
      r_score = py_round4 (final_score w today dc maxd ic p),
      r_subscores =
        \<lparr>s_urgency = py_round4 (urgency_score today (snd p)),
         s_importance = py_round4 (importance_score (snd p)),
         s_effort = py_round4 (effort_score (snd p)),
         s_dependency = py_round4 (dependency_score dc maxd (fst p))\<rparr>,
      r_issues = task_issues ic p\<rparr>"

definition score_all :: "weights \<Rightarrow> int \<Rightarrow> (string \<times> task) list \<Rightarrow> result list" where
  \<comment> \<open>\<^verbatim>\<open>results\<close> before it is sorted\<close>
  "score_all w today id_map =
     (let ic = snd (detect_cycles id_map);
          dc = dependents_count id_map;
          maxd = max_dependents id_map dc
      in map (score_task w today dc maxd ic) id_map)"

text \<open>
  \<^verbatim>\<open>results.sort(key=lambda x: x['score'], reverse=True)\<close> is a stable sort into descending
  order of the key: an insertion sort on the negated key.
\<close>

definition compute_scores ::
  "pylib \<Rightarrow> raw_task list \<Rightarrow> string \<Rightarrow> (string \<rightharpoonup> real) option \<Rightarrow> int \<Rightarrow> error + result list" where
  "compute_scores lib task_list strategy ws today =
     (let w = select_weights strategy ws
      in case normalize lib 0 task_list [] of
           Inl e \<Rightarrow> Inl e
         | Inr id_map \<Rightarrow> Inr (sort_key (\<lambda>r. - r_score r) (score_all w today id_map)))"

section \<open>Sample inputs and auxiliary notions\<close>

text \<open>A library that parses nothing, and the inputs the scenarios below are run on.\<close>

definition lib0 :: pylib where
  "lib0 = \<lparr>parse_date = (\<lambda>v. None), int_of_str = (\<lambda>s. None), float_of_str = (\<lambda>s. None),
            repr = (\<lambda>v. ''?'')\<rparr>"

definition overdue_task :: raw_task where
  \<comment> \<open>due on day 95, five days before day 100\<close>
  "overdue_task =
     [''title'' \<mapsto> PStr ''report'', ''due_date'' \<mapsto> PDate 95, ''importance'' \<mapsto> PInt 8,
      ''estimated_hours'' \<mapsto> PFloat (1 / 2)]"

definition bare_task :: raw_task where
  "bare_task = [''title'' \<mapsto> PStr ''write tests'']"

definition cleaned :: "string \<times> task \<Rightarrow> bool" where
  \<comment> \<open>an entry as the normalization loop stores it\<close>
  "cleaned p = (fst p = task_id (snd p) \<and> importance (snd p) \<noteq> None
      \<and> estimated_hours (snd p) \<noteq> None \<and> dependencies (snd p) \<noteq> None)"

text \<open>Three tasks that depend on one another in a ring, and what normalization makes of them.\<close>

definition cycle_tasks :: "raw_task list" where
  "cycle_tasks =
     [[''id'' \<mapsto> PStr ''A'', ''dependencies'' \<mapsto> PList [PStr ''B'']],
      [''id'' \<mapsto> PStr ''B'', ''dependencies'' \<mapsto> PList [PStr ''C'']],
      [''id'' \<mapsto> PStr ''C'', ''dependencies'' \<mapsto> PList [PStr ''A'']]]"

definition cycle_task :: "string \<Rightarrow> string \<Rightarrow> string \<Rightarrow> task" where
  "cycle_task a i b =
     \<lparr>task_id = a, title = PStr (''Untitled '' @ i), importance = Some 5,
      estimated_hours = Some 4, due_date = None, dependencies = Some [b]\<rparr>"

definition cycle_map :: "(string \<times> task) list" where
  "cycle_map = [(''A'', cycle_task ''A'' ''0'' ''B''), (''B'', cycle_task ''B'' ''1'' ''C''),
      (''C'', cycle_task ''C'' ''2'' ''A'')]"

text \<open>The ids the normalization loop derives, in input order.\<close>

fun derived_ids :: "pylib \<Rightarrow> nat \<Rightarrow> raw_task list \<Rightarrow> string list" where
  "derived_ids lib i [] = []"
| "derived_ids lib i (t # ts) = derive_id lib i t # derived_ids lib (Suc i) ts"

definition dup_tasks :: "raw_task list" where
  "dup_tasks =
     [[''id'' \<mapsto> PStr ''x'', ''importance'' \<mapsto> PInt 1],
      [''id'' \<mapsto> PStr ''x'', ''importance'' \<mapsto> PInt 9]]"

definition tie_tasks :: "raw_task list" where
  "tie_tasks = [[''id'' \<mapsto> PStr ''x''], [''id'' \<mapsto> PStr ''y'']]"

definition plain_task :: "string \<Rightarrow> string \<Rightarrow> int \<Rightarrow> task" where
  \<comment> \<open>what normalization makes of a task given with an id and, at most, an importance\<close>
  "plain_task a i n =
     \<lparr>task_id = a, title = PStr (''Untitled '' @ i), importance = Some n,
      estimated_hours = Some 4, due_date = None, dependencies = Some []\<rparr>"

definition bad_deps_task :: raw_task where
  "bad_deps_task = [''title'' \<mapsto> PStr ''a'', ''dependencies'' \<mapsto> PInt 5]"

definition dependencies_usable :: "raw_task \<Rightarrow> bool" where
  \<comment> \<open>the \<^verbatim>\<open>dependencies\<close> value is missing, false or iterable\<close>
  "dependencies_usable t =
     (case dict_get t ''dependencies'' of
        PList xs \<Rightarrow> True | PStr s \<Rightarrow> True | PDict kvs \<Rightarrow> True | v \<Rightarrow> \<not> truthy v)"

definition drop_unknown :: "(string \<times> task) list \<Rightarrow> (string \<times> task) list" where
  \<comment> \<open>the task map with every dependency entry that is not a key of the map removed\<close>
  "drop_unknown tasks =
     map (\<lambda>(tid, t). (tid, t\<lparr>dependencies :=
            map_option (filter (\<lambda>d. d \<in> fst ` set tasks)) (dependencies t)\<rparr>)) tasks"

definition prune :: "graph \<Rightarrow> graph" where
  \<comment> \<open>the graph without the edges to nodes that are not keys\<close>
  "prune g = map (\<lambda>(k, ds). (k, filter (\<lambda>d. d \<in> fst ` set g) ds)) g"

definition in_graph :: "graph \<Rightarrow> dstate \<Rightarrow> bool" where
  \<comment> \<open>the cycle sets hold keys only, and \<^verbatim>\<open>in_cycle\<close> has exactly the keys\<close>
  "in_graph g st = ((\<forall>c\<in>set (cycles st). c \<subseteq> fst ` set g) \<and> dom (in_cycle st) = fst ` set g)"

definition ghost_map :: "(string \<times> task) list" where
  "ghost_map =
     [(''A'', \<lparr>task_id = ''A'', title = PStr ''a'', importance = Some 5, estimated_hours = Some 4,
              due_date = None, dependencies = Some [''ghost'', ''B'']\<rparr>),
      (''B'', \<lparr>task_id = ''B'', title = PStr ''b'', importance = Some 5, estimated_hours = Some 4,
              due_date = None, dependencies = Some [''nobody'']\<rparr>)]"

definition self_flagged :: "string \<Rightarrow> dstate \<Rightarrow> bool" where
  \<comment> \<open>the one-element cycle of \<open>a\<close> has been recorded\<close>
  "self_flagged a st = ({a} \<in> set (cycles st) \<and> in_cycle st a = Some True)"

definition settled :: "string \<Rightarrow> dstate \<Rightarrow> bool" where
  \<comment> \<open>once \<open>a\<close> is finished, its one-element cycle has been recorded\<close>
  "settled a st = (visited st a = Some Done \<longrightarrow> self_flagged a st)"

definition self_map :: "(string \<times> task) list" where
  "self_map =
     [(''B'', \<lparr>task_id = ''B'', title = PStr ''b'', importance = Some 5, estimated_hours = Some 4,
              due_date = None, dependencies = Some [''A'']\<rparr>),
      (''A'', \<lparr>task_id = ''A'', title = PStr ''a'', importance = Some 5, estimated_hours = Some 4,
              due_date = None, dependencies = Some [''B'', ''A'']\<rparr>)]"

text \<open>A chain of \<open>n\<close> tasks, each depending on the next, the last on the ids in \<open>tail\<close>.\<close>

definition chain_node :: "nat \<Rightarrow> string" where
  "chain_node i = replicate (Suc i) CHR ''n''"

definition link :: "string \<Rightarrow> string list \<Rightarrow> string \<times> task" where
  "link tid ds =
     (tid, \<lparr>task_id = tid, title = PStr tid, importance = Some 5, estimated_hours = Some 4,
            due_date = None, dependencies = Some ds\<rparr>)"

fun chain_from :: "nat \<Rightarrow> nat \<Rightarrow> string list \<Rightarrow> (string \<times> task) list" where
  "chain_from i 0 tail = []"
| "chain_from i (Suc k) tail =
     link (chain_node i) (if k = 0 then tail else [chain_node (Suc i)]) # chain_from (Suc i) k tail"

definition chain_tasks :: "nat \<Rightarrow> string list \<Rightarrow> (string \<times> task) list" where
  "chain_tasks n tail = chain_from 0 n tail"

section \<open>Termination of the search\<close>

lemma visited_record_cycle [simp]: "visited (record_cycle cyc st) = visited st"
  by (simp add: record_cycle_def)

lemma dfs_dom_keeps_visited:
  "dfs_dfs_each_dom (Inl (g, node, stack, st)) \<Longrightarrow> visited st x \<noteq> None
     \<Longrightarrow> visited (dfs g node stack st) x \<noteq> None"
  "dfs_dfs_each_dom (Inr (g, nbs, stack, st)) \<Longrightarrow> visited st x \<noteq> None
     \<Longrightarrow> visited (dfs_each g nbs stack st) x \<noteq> None"
proof (induct g node stack st and g nbs stack st rule: dfs_dfs_each.pinduct)
  case (1 g node stack st)
  then show ?case
    by (simp add: dfs.psimps Let_def)
next
  case (2 g stack st)
  then show ?case by (simp add: dfs_each.psimps)
next
  case (3 g nb nbs stack st)
  then show ?case by (simp add: dfs_each.psimps)
qed

lemma unvisited_mono:
  assumes "\<And>x. visited st x \<noteq> None \<Longrightarrow> visited st' x \<noteq> None"
  shows "unvisited g st' \<le> unvisited g st"
proof -
  have "{k \<in> fst ` set g. visited st' k = None} \<subseteq> {k \<in> fst ` set g. visited st k = None}"
    using assms by blast
  then show ?thesis
    unfolding unvisited_def by (intro card_mono) auto
qed

lemma unvisited_mark:
  assumes "node \<in> fst ` set g" "visited st node = None"
  shows "unvisited g (st\<lparr>visited := (visited st)(node \<mapsto> c)\<rparr>) < unvisited g st"
  unfolding unvisited_def
  by (rule psubset_card_mono) (use assms in auto)

text \<open>
  The search terminates: every call that recurses first marks a key of the graph that was
  unmarked, and no call unmarks one.
\<close>

termination dfs
proof (relation "inv_image (less_than <*lex*> less_than)
    (\<lambda>x. case x of Inl (g, node, stack, st) \<Rightarrow> (unvisited g st, 0)
                  | Inr (g, nbs, stack, st) \<Rightarrow> (unvisited g st, Suc (length nbs)))", goal_cases)
  case 1
  show ?case by (intro wf_inv_image wf_lex_prod wf_less_than)
next
  case (2 g node stack st x)
  have "visited st node = None"
    using 2 by (cases "visited st node") (auto intro: colour.exhaust)
  then show ?case using 2 unvisited_mark by simp
next
  case (3 g nb nbs stack st)
  then show ?case by simp
next
  case (4 g nb nbs stack st)
  have "unvisited g (dfs g nb stack st) \<le> unvisited g st"
    by (rule unvisited_mono) (rule dfs_dom_keeps_visited(1)[OF 4])
  then show ?case by auto
qed

declare dfs.simps [simp del]

section \<open>Rounding\<close>

lemma py_round4_exact: "py_round4 (real_of_int n / 10000) = real_of_int n / 10000"
  by (simp add: py_round4_def round_half_even_def)

section \<open>The deadline scenario\<close>

lemma detect_cycles_single_no_deps:
  "dependencies c = Some [] \<Longrightarrow> snd (detect_cycles [(tid, c)]) tid = Some False"
  by (simp add: detect_cycles_def graph_of_def Let_def dfs.simps graph_get_def)

lemma deadline_scenario:
  assumes "t ''due_date'' = Some (PDate (today - 5))"
    and "t ''importance'' = Some (PInt 8)"
    and "t ''estimated_hours'' = Some (PFloat (1 / 2))"
    and "t ''dependencies'' = None \<or> t ''dependencies'' = Some (PList [])"
  shows "\<exists>r. compute_scores lib [t] ''deadline'' None today = Inr [r]
           \<and> r_subscores r = \<lparr>s_urgency = 95 / 100, s_importance = 8 / 10, s_effort = 1, s_dependency = 0\<rparr>
           \<and> r_score r = 885 / 1000"
proof -
  obtain c where c: "clean_task lib 0 t = Inr c" "due_date c = Some (today - 5)"
    "importance c = Some 8" "estimated_hours c = Some (1 / 2)" "dependencies c = Some []"
    using assms
    by (auto simp add: clean_task_def dict_get_def py_or_def py_int_def py_float_def py_iter_def
        parse_due_date_def Let_def)
  define tid where "tid = task_id c"
  have n: "normalize lib 0 [t] [] = Inr [(tid, c)]"
    by (simp add: c tid_def)
  have u: "urgency_score today c = 9500 / 10000"
    by (simp add: urgency_score_def c)
  have i: "importance_score c = 8000 / 10000"
    by (simp add: importance_score_def c)
  have e: "effort_score c = 10000 / 10000"
    by (simp add: effort_score_def task_hours_def c)
  have dc: "max_dependents [(tid, c)] (dependents_count [(tid, c)]) = 0"
    by (simp add: max_dependents_def dependents_count_def task_deps_def c count_get_def)
  have d: "dependency_score dc 0 tid = 0 / 10000" for dc
    by (simp add: dependency_score_def)
  have w: "select_weights ''deadline'' None
      = \<lparr>w_urgency = 7 / 10, w_importance = 15 / 100, w_effort = 1 / 10, w_dependency = 5 / 100\<rparr>"
    by (simp add: select_weights_def base_weights_def)
  have f: "final_score (select_weights ''deadline'' None) today dc 0 (snd (detect_cycles [(tid, c)])) (tid, c)
      = 8850 / 10000" for dc
    unfolding final_score_def aggregate_def weighted_sum_def flagged_def w
    by (simp add: detect_cycles_single_no_deps c u i e d)
  have ru: "py_round4 (urgency_score today c) = 95 / 100"
    unfolding u using py_round4_exact[of 9500] by simp
  have ri: "py_round4 (importance_score c) = 8 / 10"
    unfolding i using py_round4_exact[of 8000] by simp
  have re: "py_round4 (effort_score c) = 1"
    unfolding e using py_round4_exact[of 10000] by simp
  have rd: "py_round4 (dependency_score dc 0 tid) = 0" for dc
    unfolding d using py_round4_exact[of 0] by simp
  have rf: "py_round4 (final_score (select_weights ''deadline'' None) today dc 0
      (snd (detect_cycles [(tid, c)])) (tid, c)) = 885 / 1000" for dc
    unfolding f using py_round4_exact[of 8850] by simp
  show ?thesis
    unfolding compute_scores_def n
    by (simp add: Let_def score_all_def dc score_task_def ru ri re rd rf)
qed

text \<open>
  C1, as the specification states it, fails: on the scenario's task the weighted sum is
  \<open>0.7 * 0.95 + 0.15 * 0.8 + 0.1 * 1.0 + 0.05 * 0 = 0.885\<close>, and the emitted score is 0.885,
  not 0.805.
\<close>

theorem C1_counterexample:
  "(case compute_scores lib0 [overdue_task] ''deadline'' None 100 of
      Inr rs \<Rightarrow> map r_score rs | Inl e \<Rightarrow> []) = [885 / 1000]
   \<and> (case compute_scores lib0 [overdue_task] ''deadline'' None 100 of
      Inr rs \<Rightarrow> map r_score rs | Inl e \<Rightarrow> []) \<noteq> [805 / 1000]"
proof -
  obtain r where "compute_scores lib0 [overdue_task] ''deadline'' None 100 = Inr [r]"
    and "r_score r = 885 / 1000"
    using deadline_scenario[of overdue_task 100 lib0] by (auto simp add: overdue_task_def)
  then show ?thesis by simp
qed

text \<open>
  C1 (amended): a single task due 5 days before the reference date, with importance 8,
  0.5 estimated hours and no dependencies, scored under the strategy \<open>deadline\<close> with no
  weight overrides, yields exactly one result, with the sub-scores urgency 0.95,
  importance 0.8, effort 1.0, dependency 0.0 and the final score 0.8850.
\<close>

theorem C1_deadline_scenario:
  assumes "t ''due_date'' = Some (PDate (today - 5))"
    and "t ''importance'' = Some (PInt 8)"
    and "t ''estimated_hours'' = Some (PFloat (1 / 2))"
    and "t ''dependencies'' = None \<or> t ''dependencies'' = Some (PList [])"
  shows "\<exists>r. compute_scores lib [t] ''deadline'' None today = Inr [r]
           \<and> r_subscores r = \<lparr>s_urgency = 95 / 100, s_importance = 8 / 10, s_effort = 1, s_dependency = 0\<rparr>
           \<and> r_score r = 885 / 1000"
  using assms by (rule deadline_scenario)

theorem C1_deadline_scenario_witness:
  "\<exists>r. compute_scores lib0 [overdue_task] ''deadline'' None 100 = Inr [r]
     \<and> r_subscores r = \<lparr>s_urgency = 95 / 100, s_importance = 8 / 10, s_effort = 1, s_dependency = 0\<rparr>
     \<and> r_score r = 885 / 1000"
  using C1_deadline_scenario[of overdue_task 100 lib0] by (simp add: overdue_task_def)

section \<open>Urgency of overdue tasks\<close>

lemma urgency_overdue:
  assumes "due_date t = Some d" "d - today < 0"
  shows "urgency_score today t = min (99 / 100) (9 / 10 + real_of_int (min 30 (- (d - today))) / 100)"
  using assms by (simp add: urgency_score_def Let_def)

text \<open>
  C6: for a task whose due date lies strictly before the reference date
  (\<open>days = due_date - reference_date < 0\<close>), the urgency is
  \<open>min(0.99, 0.9 + min(30, -days) / 100)\<close>. It lies above 0.9 and is capped at 0.99, just under
  1.0; a task that is overdue by at least as many days has at least as high an urgency; and
  more than 30 days overdue the urgency is the cap 0.99.
\<close>

theorem C6_overdue_urgency:
  assumes "due_date t = Some d" and "d - today < 0"
  shows "urgency_score today t = min (99 / 100) (9 / 10 + real_of_int (min 30 (- (d - today))) / 100)
    \<and> 9 / 10 < urgency_score today t \<and> urgency_score today t \<le> 99 / 100 \<and> urgency_score today t < 1
    \<and> (\<forall>t' d'. due_date t' = Some d' \<and> d' \<le> d \<longrightarrow> urgency_score today t \<le> urgency_score today t')
    \<and> (30 < today - d \<longrightarrow> urgency_score today t = 99 / 100)"
proof -
  have u: "urgency_score today t = min (99 / 100) (9 / 10 + real_of_int (min 30 (- (d - today))) / 100)"
    using assms by (rule urgency_overdue)
  have mono: "urgency_score today t \<le> urgency_score today t'" if "due_date t' = Some d'" "d' \<le> d" for t' d'
  proof -
    have "d' - today < 0" using that assms by simp
    then have u': "urgency_score today t' = min (99 / 100) (9 / 10 + real_of_int (min 30 (- (d' - today))) / 100)"
      using that by (intro urgency_overdue)
    have "min 30 (- (d - today)) \<le> min 30 (- (d' - today))" using that by simp
    then have "real_of_int (min 30 (- (d - today))) \<le> real_of_int (min 30 (- (d' - today)))"
      by (simp only: of_int_le_iff)
    then have "9 / 10 + real_of_int (min 30 (- (d - today))) / 100
        \<le> 9 / 10 + real_of_int (min 30 (- (d' - today))) / 100"
      by (simp add: divide_right_mono)
    then show ?thesis unfolding u u' by (intro min.mono order_refl)
  qed
  have lo: "9 / 10 < urgency_score today t"
    unfolding u using assms(2) by (simp add: min_def)
  have sat: "urgency_score today t = 99 / 100" if "30 < today - d"
    unfolding u using that by (simp add: min_def)
  show ?thesis using u mono lo sat by (simp add: min_def)
qed

theorem C6_overdue_urgency_witness:
  "urgency_score 100 \<lparr>task_id = ''a'', title = PNone, importance = None, estimated_hours = None,
      due_date = Some 95, dependencies = None\<rparr> = 95 / 100
   \<and> urgency_score 100 \<lparr>task_id = ''a'', title = PNone, importance = None, estimated_hours = None,
      due_date = Some 60, dependencies = None\<rparr> = 99 / 100"
  using C6_overdue_urgency[of "\<lparr>task_id = ''a'', title = PNone, importance = None, estimated_hours = None,
      due_date = Some 95, dependencies = None\<rparr>" 95 100]
    C6_overdue_urgency[of "\<lparr>task_id = ''a'', title = PNone, importance = None, estimated_hours = None,
      due_date = Some 60, dependencies = None\<rparr>" 60 100]
  by simp

section \<open>Ranges of the sub-scores\<close>

lemma py_max_ge: "x \<in> set xs \<Longrightarrow> x \<le> py_max xs"
proof (cases xs)
  case Nil
  then show "x \<in> set xs \<Longrightarrow> x \<le> py_max xs" by simp
next
  case (Cons a as)
  assume "x \<in> set xs"
  then have "x \<le> Max (set (a # as))" using Cons by (intro Max_ge) auto
  then show "x \<le> py_max xs" using Cons by (simp only: py_max.simps Max.set_eq_fold)
qed

lemma urgency_range: "0 \<le> urgency_score today t \<and> urgency_score today t \<le> 1"
  by (auto simp add: urgency_score_def Let_def min_def max_def split: option.splits)

lemma importance_range: "0 \<le> importance_score t \<and> importance_score t \<le> 1"
  by (auto simp add: importance_score_def min_def max_def split: option.splits)

lemma effort_range: "0 \<le> effort_score t \<and> effort_score t \<le> 1"
  by (auto simp add: effort_score_def Let_def)

lemma dependency_range:
  assumes "p \<in> set id_map"
  shows "0 \<le> dependency_score dc (max_dependents id_map dc) (fst p)
       \<and> dependency_score dc (max_dependents id_map dc) (fst p) \<le> 1"
proof -
  have "count_get dc (fst p) \<in> set (map (\<lambda>(tid, t). count_get dc tid) id_map)"
    using assms by (force simp add: case_prod_beta)
  then have "count_get dc (fst p) \<le> py_max (map (\<lambda>(tid, t). count_get dc tid) id_map)"
    by (rule py_max_ge)
  moreover have "id_map \<noteq> []" using assms by auto
  ultimately have "count_get dc (fst p) \<le> max_dependents id_map dc"
    by (simp add: max_dependents_def)
  then show ?thesis
    by (auto simp add: dependency_score_def divide_le_eq)
qed

lemma builtin_weights:
  "0 \<le> w_urgency (select_weights s None) \<and> 0 \<le> w_importance (select_weights s None)
   \<and> 0 \<le> w_effort (select_weights s None) \<and> 0 \<le> w_dependency (select_weights s None)
   \<and> w_urgency (select_weights s None) + w_importance (select_weights s None)
     + w_effort (select_weights s None) + w_dependency (select_weights s None) = 1"
  by (simp add: select_weights_def base_weights_def smart_balance_def)

lemma weighted_sum_range:
  assumes "0 \<le> w_urgency w" "0 \<le> w_importance w" "0 \<le> w_effort w" "0 \<le> w_dependency w"
    and "w_urgency w + w_importance w + w_effort w + w_dependency w = 1"
    and "0 \<le> u \<and> u \<le> 1" "0 \<le> i \<and> i \<le> 1" "0 \<le> e \<and> e \<le> 1" "0 \<le> d \<and> d \<le> 1"
  shows "0 \<le> weighted_sum w u i e d \<and> weighted_sum w u i e d \<le> 1"
proof -
  have "w_urgency w * u \<le> w_urgency w" "w_importance w * i \<le> w_importance w"
    "w_effort w * e \<le> w_effort w" "w_dependency w * d \<le> w_dependency w"
    using assms by (simp_all add: mult_left_le)
  moreover have "0 \<le> w_urgency w * u" "0 \<le> w_importance w * i" "0 \<le> w_effort w * e" "0 \<le> w_dependency w * d"
    using assms by simp_all
  ultimately show ?thesis
    unfolding weighted_sum_def using assms(5) by linarith
qed

section \<open>The shape of the output\<close>

lemma compute_scores_Inr:
  assumes "compute_scores lib tasks strategy ws today = Inr rs"
  obtains id_map where "normalize lib 0 tasks [] = Inr id_map"
    and "rs = sort_key (\<lambda>r. - r_score r) (score_all (select_weights strategy ws) today id_map)"
  using assms by (auto simp add: compute_scores_def Let_def split: sum.splits)

lemma score_all_member:
  assumes "r \<in> set (score_all w today id_map)"
  obtains p where "p \<in> set id_map"
    and "r = score_task w today (dependents_count id_map)
              (max_dependents id_map (dependents_count id_map)) (snd (detect_cycles id_map)) p"
  using assms by (auto simp add: score_all_def Let_def)

lemma final_score_le_aggregate:
  assumes "0 \<le> aggregate w today dc maxd p"
  shows "final_score w today dc maxd ic p \<le> aggregate w today dc maxd p"
  using assms by (simp add: final_score_def)

lemma final_score_range:
  assumes "0 \<le> aggregate w today dc maxd p \<and> aggregate w today dc maxd p \<le> 1"
  shows "0 \<le> final_score w today dc maxd ic p \<and> final_score w today dc maxd ic p \<le> 1"
  using assms by (simp add: final_score_def)

lemma aggregate_range:
  assumes "p \<in> set id_map"
  shows "0 \<le> aggregate (select_weights s None) today dc (max_dependents id_map dc) p
       \<and> aggregate (select_weights s None) today dc (max_dependents id_map dc) p \<le> 1"
  unfolding aggregate_def
  using builtin_weights[of s] urgency_range importance_range effort_range dependency_range[OF assms]
  by (intro weighted_sum_range) simp_all

text \<open>
  C4: under any strategy name and no weight overrides, every emitted result is the result of
  one normalized task whose four sub-scores (urgency, importance, effort, dependency) lie in
  \<open>[0, 1]\<close> before rounding and whose final score lies in \<open>[0, 1]\<close> before rounding; the final
  score, with the cycle penalty applied where it applies, is never above the weighted sum.
\<close>

theorem C4_scores_in_unit_interval:
  assumes "compute_scores lib tasks strategy None today = Inr rs" and "r \<in> set rs"
  shows "\<exists>id_map p. normalize lib 0 tasks [] = Inr id_map \<and> p \<in> set id_map
     \<and> (let w = select_weights strategy None;
             dc = dependents_count id_map;
             maxd = max_dependents id_map dc;
             ic = snd (detect_cycles id_map)
         in r = score_task w today dc maxd ic p
          \<and> 0 \<le> urgency_score today (snd p) \<and> urgency_score today (snd p) \<le> 1
          \<and> 0 \<le> importance_score (snd p) \<and> importance_score (snd p) \<le> 1
          \<and> 0 \<le> effort_score (snd p) \<and> effort_score (snd p) \<le> 1
          \<and> 0 \<le> dependency_score dc maxd (fst p) \<and> dependency_score dc maxd (fst p) \<le> 1
          \<and> 0 \<le> final_score w today dc maxd ic p \<and> final_score w today dc maxd ic p \<le> 1
          \<and> final_score w today dc maxd ic p \<le> aggregate w today dc maxd p)"
proof -
  obtain id_map where n: "normalize lib 0 tasks [] = Inr id_map"
    and rs: "rs = sort_key (\<lambda>r. - r_score r) (score_all (select_weights strategy None) today id_map)"
    using assms(1) by (rule compute_scores_Inr)
  have "r \<in> set (score_all (select_weights strategy None) today id_map)"
    using assms(2) rs by simp
  then obtain p where p: "p \<in> set id_map"
    and r: "r = score_task (select_weights strategy None) today (dependents_count id_map)
              (max_dependents id_map (dependents_count id_map)) (snd (detect_cycles id_map)) p"
    by (rule score_all_member)
  note a = aggregate_range[OF p, of strategy today "dependents_count id_map"]
  show ?thesis
    using n p r urgency_range[of today "snd p"] importance_range[of "snd p"] effort_range[of "snd p"]
      dependency_range[OF p, of "dependents_count id_map"] final_score_range[OF a]
      final_score_le_aggregate[OF conjunct1[OF a]]
    unfolding Let_def by blast
qed

theorem C4_scores_in_unit_interval_witness:
  "\<exists>rs r id_map p. compute_scores lib0 [overdue_task] ''deadline'' None 100 = Inr rs \<and> r \<in> set rs
     \<and> normalize lib0 0 [overdue_task] [] = Inr id_map \<and> p \<in> set id_map
     \<and> 0 \<le> final_score (select_weights ''deadline'' None) 100 (dependents_count id_map)
           (max_dependents id_map (dependents_count id_map)) (snd (detect_cycles id_map)) p
     \<and> final_score (select_weights ''deadline'' None) 100 (dependents_count id_map)
           (max_dependents id_map (dependents_count id_map)) (snd (detect_cycles id_map)) p \<le> 1"
proof -
  obtain r where c: "compute_scores lib0 [overdue_task] ''deadline'' None 100 = Inr [r]"
    using deadline_scenario[of overdue_task 100 lib0] by (auto simp add: overdue_task_def)
  have "r \<in> set [r]" by simp
  from C4_scores_in_unit_interval[OF c this] show ?thesis
    unfolding Let_def using c by fastforce
qed

section \<open>What normalization establishes\<close>

lemma clean_task_cleaned: "clean_task lib i t = Inr c \<Longrightarrow> cleaned (task_id c, c)"
  by (auto simp add: clean_task_def cleaned_def Let_def split: sum.splits)

lemma set_dict_set: "set (dict_set k v m) \<subseteq> insert (k, v) (set m)"
  by (induction m) auto

lemma normalize_cleaned:
  "normalize lib i ts m = Inr m' \<Longrightarrow> \<forall>p\<in>set m. cleaned p \<Longrightarrow> \<forall>p\<in>set m'. cleaned p"
proof (induction ts arbitrary: i m)
  case Nil
  then show ?case by simp
next
  case (Cons t ts)
  then obtain c where c: "clean_task lib i t = Inr c"
    and n: "normalize lib (Suc i) ts (dict_set (task_id c) c m) = Inr m'"
    by (auto split: sum.splits)
  have "\<forall>p\<in>set (dict_set (task_id c) c m). cleaned p"
    using set_dict_set[of "task_id c" c m] clean_task_cleaned[OF c] Cons.prems(2) by auto
  with Cons.IH[OF n] show ?case .
qed

lemma no_estimated_hours_never_flagged:
  assumes "compute_scores lib tasks strategy ws today = Inr rs" and "r \<in> set rs"
  shows "''no_estimated_hours'' \<notin> set (r_issues r)"
proof -
  obtain id_map where n: "normalize lib 0 tasks [] = Inr id_map"
    and rs: "rs = sort_key (\<lambda>r. - r_score r) (score_all (select_weights strategy ws) today id_map)"
    using assms(1) by (rule compute_scores_Inr)
  have "r \<in> set (score_all (select_weights strategy ws) today id_map)"
    using assms(2) rs by simp
  then obtain p where p: "p \<in> set id_map"
    and r: "r = score_task (select_weights strategy ws) today (dependents_count id_map)
              (max_dependents id_map (dependents_count id_map)) (snd (detect_cycles id_map)) p"
    by (rule score_all_member)
  have "cleaned p" using normalize_cleaned[OF n] p by simp
  then show ?thesis
    by (simp add: r score_task_def task_issues_def cleaned_def)
qed

text \<open>
  C2: the flag \<open>no_estimated_hours\<close> is meant to report that the input had no estimated hours.
  The scoring loop tests the normalized copy, in which the normalization loop has already
  stored a float under \<open>estimated_hours\<close>, so the flag is never raised: a task given without
  the field comes out with \<open>no_due_date\<close> as its only issue.
\<close>

theorem C2_missing_hours_not_flagged:
  "bare_task ''estimated_hours'' = None
   \<and> (case compute_scores lib0 [bare_task] ''smart_balance'' None 100 of
        Inr rs \<Rightarrow> map r_issues rs | Inl e \<Rightarrow> []) = [[''no_due_date'']]"
proof -
  obtain c where c: "clean_task lib0 0 bare_task = Inr c" "due_date c = None"
    "estimated_hours c = Some 4" "dependencies c = Some []"
    by (simp add: clean_task_def bare_task_def dict_get_def py_or_def py_int_def py_float_def
        py_iter_def parse_due_date_def Let_def default_hours_def)
  have n: "normalize lib0 0 [bare_task] [] = Inr [(task_id c, c)]"
    by (simp add: c)
  have "task_issues (snd (detect_cycles [(task_id c, c)])) (task_id c, c) = [''no_due_date'']"
    by (simp add: task_issues_def flagged_def detect_cycles_single_no_deps c)
  then show ?thesis
    unfolding compute_scores_def n
    by (simp add: Let_def score_all_def score_task_def bare_task_def)
qed

section \<open>The cycle penalty\<close>

lemma normalize_cycle_tasks: "normalize lib0 0 cycle_tasks [] = Inr cycle_map"
  by (simp add: cycle_tasks_def cycle_map_def cycle_task_def clean_task_def derive_id_def dict_get_def
      py_or_def py_str_def py_int_def py_float_def py_iter_def parse_due_date_def Let_def default_hours_def
      lib0_def str_nat.simps digit_char_def)

lemma detect_cycles_cycle_map:
  "detect_cycles cycle_map = ([{''A'', ''B'', ''C''}], [''A'' \<mapsto> True, ''B'' \<mapsto> True, ''C'' \<mapsto> True])"
  by (simp add: detect_cycles_def cycle_map_def cycle_task_def graph_of_def Let_def dfs.simps graph_get_def
      record_cycle_def fun_upd_twist insert_commute)

text \<open>
  C3: every emitted result belongs to one normalized task. Its score is the rounding of a
  final value that, when \<open>detect_cycles\<close> flags the task's id, is exactly 0.9 times the
  weighted sum of the four sub-scores (the factor is applied to the finished sum), and then
  \<open>circular_dependency\<close> is among its issues; when the id is not flagged the final value is
  the weighted sum itself and the issue is absent.
\<close>

theorem C3_cycle_penalty:
  assumes "compute_scores lib tasks strategy ws today = Inr rs" and "r \<in> set rs"
  shows "\<exists>id_map p. normalize lib 0 tasks [] = Inr id_map \<and> p \<in> set id_map \<and> r_id r = fst p
     \<and> (let w = select_weights strategy ws;
             dc = dependents_count id_map;
             maxd = max_dependents id_map dc;
             ic = snd (detect_cycles id_map)
         in r_score r = py_round4 (final_score w today dc maxd ic p)
          \<and> (if ic (r_id r) = Some True
              then final_score w today dc maxd ic p = 9 / 10 * aggregate w today dc maxd p
                 \<and> ''circular_dependency'' \<in> set (r_issues r)
              else final_score w today dc maxd ic p = aggregate w today dc maxd p
                 \<and> ''circular_dependency'' \<notin> set (r_issues r)))"
proof -
  obtain id_map where n: "normalize lib 0 tasks [] = Inr id_map"
    and rs: "rs = sort_key (\<lambda>r. - r_score r) (score_all (select_weights strategy ws) today id_map)"
    using assms(1) by (rule compute_scores_Inr)
  have "r \<in> set (score_all (select_weights strategy ws) today id_map)"
    using assms(2) rs by simp
  then obtain p where p: "p \<in> set id_map"
    and r: "r = score_task (select_weights strategy ws) today (dependents_count id_map)
              (max_dependents id_map (dependents_count id_map)) (snd (detect_cycles id_map)) p"
    by (rule score_all_member)
  have "r_id r = fst p" by (simp add: r score_task_def)
  moreover have "r_score r = py_round4 (final_score (select_weights strategy ws) today (dependents_count id_map)
              (max_dependents id_map (dependents_count id_map)) (snd (detect_cycles id_map)) p)"
    by (simp add: r score_task_def)
  moreover have "r_issues r = task_issues (snd (detect_cycles id_map)) p"
    by (simp add: r score_task_def)
  ultimately show ?thesis
    using n p unfolding Let_def
    by (intro exI[of _ id_map] exI[of _ p]) (simp add: final_score_def flagged_def task_issues_def)
qed

theorem C3_cycle_penalty_witness:
  "\<exists>rs. compute_scores lib0 cycle_tasks ''smart_balance'' None 100 = Inr rs
     \<and> set (map r_id rs) = {''A'', ''B'', ''C''}
     \<and> list_all (\<lambda>r. ''circular_dependency'' \<in> set (r_issues r)
          \<and> (\<exists>p. p \<in> set cycle_map \<and> r_id r = fst p
                \<and> r_score r = py_round4 (9 / 10 * aggregate (select_weights ''smart_balance'' None) 100
                     (dependents_count cycle_map) (max_dependents cycle_map (dependents_count cycle_map)) p))) rs"
proof -
  let ?rs = "sort_key (\<lambda>r. - r_score r) (score_all (select_weights ''smart_balance'' None) 100 cycle_map)"
  have c: "compute_scores lib0 cycle_tasks ''smart_balance'' None 100 = Inr ?rs"
    by (simp add: compute_scores_def normalize_cycle_tasks)
  have ids: "set (map r_id ?rs) = {''A'', ''B'', ''C''}"
    by (auto simp add: score_all_def Let_def score_task_def cycle_map_def)
  have "''circular_dependency'' \<in> set (r_issues r)
          \<and> (\<exists>p. p \<in> set cycle_map \<and> r_id r = fst p
                \<and> r_score r = py_round4 (9 / 10 * aggregate (select_weights ''smart_balance'' None) 100
                     (dependents_count cycle_map) (max_dependents cycle_map (dependents_count cycle_map)) p))"
    if "r \<in> set ?rs" for r
  proof -
    have ic: "snd (detect_cycles cycle_map) (r_id r) = Some True"
      using that ids by (auto simp add: detect_cycles_cycle_map)
    from C3_cycle_penalty[OF c that] obtain id_map p
      where n: "normalize lib0 0 cycle_tasks [] = Inr id_map" and p: "p \<in> set id_map" "r_id r = fst p"
        and s: "r_score r = py_round4 (final_score (select_weights ''smart_balance'' None) 100
             (dependents_count id_map) (max_dependents id_map (dependents_count id_map))
             (snd (detect_cycles id_map)) p)"
        and f: "if snd (detect_cycles id_map) (r_id r) = Some True
              then final_score (select_weights ''smart_balance'' None) 100
                     (dependents_count id_map) (max_dependents id_map (dependents_count id_map))
                     (snd (detect_cycles id_map)) p
                   = 9 / 10 * aggregate (select_weights ''smart_balance'' None) 100
                     (dependents_count id_map) (max_dependents id_map (dependents_count id_map)) p
                 \<and> ''circular_dependency'' \<in> set (r_issues r)
              else final_score (select_weights ''smart_balance'' None) 100
                     (dependents_count id_map) (max_dependents id_map (dependents_count id_map))
                     (snd (detect_cycles id_map)) p
                   = aggregate (select_weights ''smart_balance'' None) 100
                     (dependents_count id_map) (max_dependents id_map (dependents_count id_map)) p
                 \<and> ''circular_dependency'' \<notin> set (r_issues r)"
      unfolding Let_def by blast
    have m: "id_map = cycle_map" using n normalize_cycle_tasks by simp
    from f ic have "final_score (select_weights ''smart_balance'' None) 100
                     (dependents_count cycle_map) (max_dependents cycle_map (dependents_count cycle_map))
                     (snd (detect_cycles cycle_map)) p
                   = 9 / 10 * aggregate (select_weights ''smart_balance'' None) 100
                     (dependents_count cycle_map) (max_dependents cycle_map (dependents_count cycle_map)) p"
      and i: "''circular_dependency'' \<in> set (r_issues r)"
      unfolding m by (simp_all only: if_True)
    with s p show ?thesis unfolding m by metis
  qed
  then show ?thesis using c ids by (auto simp add: list_all_iff simp del: set_map)
qed

section \<open>The id map\<close>

lemma clean_task_id: "clean_task lib i t = Inr c \<Longrightarrow> task_id c = derive_id lib i t"
  by (auto simp add: clean_task_def Let_def split: sum.splits)

lemma map_fst_dict_set:
  "map fst (dict_set k v m) = (if k \<in> set (map fst m) then map fst m else map fst m @ [k])"
  by (induction m) auto

lemma distinct_dict_set: "distinct (map fst m) \<Longrightarrow> distinct (map fst (dict_set k v m))"
  by (simp add: map_fst_dict_set)

lemma set_dict_set_distinct:
  "distinct (map fst m) \<Longrightarrow> set (dict_set k v m) = insert (k, v) {p \<in> set m. fst p \<noteq> k}"
  by (induction m) (auto simp add: rev_image_eqI)

lemma derived_ids_nth:
  "j < length ts \<Longrightarrow> derived_ids lib i ts ! j = derive_id lib (i + j) (ts ! j)"
  by (induction ts arbitrary: i j) (auto simp add: nth_Cons split: nat.splits)

lemma length_derived_ids [simp]: "length (derived_ids lib i ts) = length ts"
  by (induction ts arbitrary: i) auto

lemma normalize_keys:
  "normalize lib i ts m = Inr m' \<Longrightarrow>
     set (map fst m') = set (map fst m) \<union> set (derived_ids lib i ts)"
proof (induction ts arbitrary: i m)
  case Nil
  then show ?case by simp
next
  case (Cons t ts)
  then obtain c where c: "clean_task lib i t = Inr c"
    and n: "normalize lib (Suc i) ts (dict_set (task_id c) c m) = Inr m'"
    by (auto split: sum.splits)
  show ?case
    using Cons.IH[OF n] clean_task_id[OF c] by (auto simp add: map_fst_dict_set)
qed

lemma normalize_distinct:
  "normalize lib i ts m = Inr m' \<Longrightarrow> distinct (map fst m) \<Longrightarrow> distinct (map fst m')"
proof (induction ts arbitrary: i m)
  case Nil
  then show ?case by simp
next
  case (Cons t ts)
  then obtain c where c: "clean_task lib i t = Inr c"
    and n: "normalize lib (Suc i) ts (dict_set (task_id c) c m) = Inr m'"
    by (auto split: sum.splits)
  show ?case
    using Cons.IH[OF n distinct_dict_set[OF Cons.prems(2)]] .
qed

lemma normalize_in_order:
  "normalize lib i ts m = Inr m' \<Longrightarrow> distinct (map fst m @ derived_ids lib i ts) \<Longrightarrow>
     map fst m' = map fst m @ derived_ids lib i ts"
proof (induction ts arbitrary: i m)
  case Nil
  then show ?case by simp
next
  case (Cons t ts)
  then obtain c where c: "clean_task lib i t = Inr c"
    and n: "normalize lib (Suc i) ts (dict_set (task_id c) c m) = Inr m'"
    by (auto split: sum.splits)
  have k: "map fst (dict_set (task_id c) c m) = map fst m @ [derive_id lib i t]"
    using Cons.prems(2) by (simp add: map_fst_dict_set clean_task_id[OF c])
  have "distinct (map fst (dict_set (task_id c) c m) @ derived_ids lib (Suc i) ts)"
    unfolding k using Cons.prems(2) by simp
  from Cons.IH[OF n this] show ?case by (simp add: k)
qed

lemma normalize_last_wins:
  assumes "normalize lib i ts m = Inr m'" and "distinct (map fst m)" and "(k, c) \<in> set m'"
  shows "((k, c) \<in> set m \<and> k \<notin> set (derived_ids lib i ts))
       \<or> (\<exists>j<length ts. derive_id lib (i + j) (ts ! j) = k \<and> clean_task lib (i + j) (ts ! j) = Inr c
             \<and> (\<forall>j'<length ts. j < j' \<longrightarrow> derive_id lib (i + j') (ts ! j') \<noteq> k))"
  using assms
proof (induction ts arbitrary: i m)
  case Nil
  then show ?case by simp
next
  case (Cons t ts)
  then obtain c0 where c0: "clean_task lib i t = Inr c0"
    and n: "normalize lib (Suc i) ts (dict_set (task_id c0) c0 m) = Inr m'"
    by (auto split: sum.splits)
  note id0 = clean_task_id[OF c0]
  from Cons.IH[OF n distinct_dict_set[OF Cons.prems(2)] Cons.prems(3)]
  consider (old) "(k, c) \<in> set (dict_set (task_id c0) c0 m)" "k \<notin> set (derived_ids lib (Suc i) ts)"
    | (new) j where "j < length ts" "derive_id lib (Suc i + j) (ts ! j) = k"
        "clean_task lib (Suc i + j) (ts ! j) = Inr c"
        "\<forall>j'<length ts. j < j' \<longrightarrow> derive_id lib (Suc i + j') (ts ! j') \<noteq> k"
    by blast
  then show ?case
  proof cases
    case old
    have later: "derive_id lib (i + j') ((t # ts) ! j') \<noteq> k" if b: "j' < length (t # ts)" "0 < j'" for j'
    proof -
      obtain j'' where j'': "j' = Suc j''" using b(2) by (cases j') auto
      then have "derived_ids lib (Suc i) ts ! j'' \<in> set (derived_ids lib (Suc i) ts)"
        using b(1) by simp
      then show ?thesis using old(2) j'' b(1) by (auto simp add: derived_ids_nth)
    qed
    from old(1) have "(k, c) = (task_id c0, c0) \<or> ((k, c) \<in> set m \<and> k \<noteq> task_id c0)"
      by (auto simp add: set_dict_set_distinct[OF Cons.prems(2)])
    then show ?thesis
    proof
      assume "(k, c) = (task_id c0, c0)"
      then have "derive_id lib (i + 0) ((t # ts) ! 0) = k \<and> clean_task lib (i + 0) ((t # ts) ! 0) = Inr c"
        using c0 id0 by simp
      moreover have "\<forall>j'<length (t # ts). 0 < j' \<longrightarrow> derive_id lib (i + j') ((t # ts) ! j') \<noteq> k"
        using later by blast
      ultimately show ?thesis by (intro disjI2 exI[of _ 0]) simp
    next
      assume "(k, c) \<in> set m \<and> k \<noteq> task_id c0"
      then show ?thesis using old(2) id0 by simp
    qed
  next
    case new
    have "\<forall>j'<length (t # ts). Suc j < j' \<longrightarrow> derive_id lib (i + j') ((t # ts) ! j') \<noteq> k"
    proof (intro allI impI)
      fix j' assume a: "j' < length (t # ts)" "Suc j < j'"
      then obtain j'' where j'': "j' = Suc j''" by (cases j') auto
      with a new(4) show "derive_id lib (i + j') ((t # ts) ! j') \<noteq> k" by simp
    qed
    then show ?thesis
      using new by (intro disjI2 exI[of _ "Suc j"]) simp
  qed
qed

section \<open>One result per id, in sorted order\<close>

lemma map_r_id_score_all [simp]: "map r_id (score_all w today id_map) = map fst id_map"
  by (simp add: score_all_def Let_def score_task_def)

lemma score_all_raw:
  "r \<in> set (score_all w today id_map) \<Longrightarrow> (r_id r, r_raw r) \<in> set id_map"
  by (auto simp add: score_all_def Let_def score_task_def)

lemma distinct_map_sort_key:
  "distinct (map g (sort_key f xs)) = distinct (map g xs)"
  by (simp add: distinct_map)

text \<open>
  C10: the results have pairwise distinct ids, their ids are exactly the ids derived from the
  input records, and so there are as many results as distinct derived ids (fewer than inputs
  when two inputs derive the same id). The normalized record a result carries is that of the
  last input record deriving its id.
\<close>

theorem C10_one_result_per_id:
  assumes "compute_scores lib tasks strategy ws today = Inr rs"
  shows "distinct (map r_id rs) \<and> set (map r_id rs) = set (derived_ids lib 0 tasks)
     \<and> length rs = card (set (derived_ids lib 0 tasks))
     \<and> (\<forall>r\<in>set rs. \<exists>j<length tasks. derive_id lib j (tasks ! j) = r_id r
            \<and> clean_task lib j (tasks ! j) = Inr (r_raw r)
            \<and> (\<forall>j'<length tasks. j < j' \<longrightarrow> derive_id lib j' (tasks ! j') \<noteq> r_id r))"
proof -
  obtain id_map where n: "normalize lib 0 tasks [] = Inr id_map"
    and rs: "rs = sort_key (\<lambda>r. - r_score r) (score_all (select_weights strategy ws) today id_map)"
    using assms by (rule compute_scores_Inr)
  have d: "distinct (map fst id_map)" using normalize_distinct[OF n] by simp
  have k: "set (map fst id_map) = set (derived_ids lib 0 tasks)" using normalize_keys[OF n] by simp
  have 1: "distinct (map r_id rs)"
    unfolding rs distinct_map_sort_key using d by simp
  have "set (map r_id rs) = set (map r_id (score_all (select_weights strategy ws) today id_map))"
    unfolding rs by (simp only: set_map set_sort)
  also have "\<dots> = set (map fst id_map)"
    by (simp only: map_r_id_score_all)
  also note k
  finally have 2: "set (map r_id rs) = set (derived_ids lib 0 tasks)" .
  have "length rs = length (map r_id rs)" by simp
  also have "\<dots> = card (set (map r_id rs))" using 1 by (simp only: distinct_card)
  finally have 3: "length rs = card (set (derived_ids lib 0 tasks))" unfolding 2 .
  have 4: "\<exists>j<length tasks. derive_id lib j (tasks ! j) = r_id r
            \<and> clean_task lib j (tasks ! j) = Inr (r_raw r)
            \<and> (\<forall>j'<length tasks. j < j' \<longrightarrow> derive_id lib j' (tasks ! j') \<noteq> r_id r)"
    if "r \<in> set rs" for r
  proof -
    have "(r_id r, r_raw r) \<in> set id_map"
      using that rs by (intro score_all_raw[of _ "select_weights strategy ws" today]) simp
    from normalize_last_wins[OF n _ this] show ?thesis by simp
  qed
  show ?thesis using 1 2 3 4 by blast
qed

lemma normalize_dup_tasks: "normalize lib0 0 dup_tasks [] = Inr [(''x'', plain_task ''x'' ''1'' 9)]"
  by (simp add: dup_tasks_def plain_task_def clean_task_def derive_id_def dict_get_def
      py_or_def py_str_def py_int_def py_float_def py_iter_def parse_due_date_def Let_def default_hours_def
      lib0_def str_nat.simps digit_char_def)

theorem C10_one_result_per_id_witness:
  "\<exists>rs. compute_scores lib0 dup_tasks ''smart_balance'' None 100 = Inr rs
     \<and> length dup_tasks = 2 \<and> derived_ids lib0 0 dup_tasks = [''x'', ''x''] \<and> length rs = 1
     \<and> map r_id rs = [''x''] \<and> map (\<lambda>r. importance (r_raw r)) rs = [Some 9]"
proof -
  let ?rs = "sort_key (\<lambda>r. - r_score r)
    (score_all (select_weights ''smart_balance'' None) 100 [(''x'', plain_task ''x'' ''1'' 9)])"
  have c: "compute_scores lib0 dup_tasks ''smart_balance'' None 100 = Inr ?rs"
    by (simp add: compute_scores_def normalize_dup_tasks)
  have ids: "derived_ids lib0 0 dup_tasks = [''x'', ''x'']"
    by (simp add: dup_tasks_def derive_id_def dict_get_def py_or_def py_str_def)
  from C10_one_result_per_id[OF c] have "length ?rs = 1"
    by (simp add: ids)
  moreover have "map r_id ?rs = [''x'']" "map (\<lambda>r. importance (r_raw r)) ?rs = [Some 9]"
    by (simp_all add: score_all_def Let_def score_task_def plain_task_def)
  ultimately show ?thesis using c ids by (simp add: dup_tasks_def)
qed

text \<open>
  C5: the output is in descending order of the rounded final score. When the derived ids are
  pairwise distinct, the results before sorting stand in input order (their ids are the derived
  ids, position by position), the output holds the same results, and for every score the
  results with that score come in the output in the order they have in the input.
\<close>

theorem C5_sorted_and_stable:
  assumes "compute_scores lib tasks strategy ws today = Inr rs"
    and "distinct (derived_ids lib 0 tasks)"
  shows "sorted_wrt (\<lambda>a b. r_score b \<le> r_score a) rs
     \<and> (\<exists>id_map. normalize lib 0 tasks [] = Inr id_map
          \<and> (let us = score_all (select_weights strategy ws) today id_map
             in map r_id us = derived_ids lib 0 tasks \<and> set rs = set us \<and> length rs = length us
              \<and> (\<forall>k. filter (\<lambda>r. r_score r = k) rs = filter (\<lambda>r. r_score r = k) us)))"
proof -
  obtain id_map where n: "normalize lib 0 tasks [] = Inr id_map"
    and rs: "rs = sort_key (\<lambda>r. - r_score r) (score_all (select_weights strategy ws) today id_map)"
    using assms(1) by (rule compute_scores_Inr)
  let ?us = "score_all (select_weights strategy ws) today id_map"
  have "sorted (map (\<lambda>r. - r_score r) rs)" unfolding rs by (rule sorted_sort_key)
  then have 1: "sorted_wrt (\<lambda>a b. r_score b \<le> r_score a) rs"
    by (simp add: sorted_map)
  have 2: "map r_id ?us = derived_ids lib 0 tasks"
    using normalize_in_order[OF n] assms(2) by simp
  have 3: "filter (\<lambda>r. r_score r = k) rs = filter (\<lambda>r. r_score r = k) ?us" for k
    using sort_key_stable[of "\<lambda>r. - r_score r" "- k" ?us] unfolding rs by simp
  have 4: "set rs = set ?us" "length rs = length ?us" unfolding rs by simp_all
  show ?thesis using 1 n 2 3 4 unfolding Let_def by blast
qed

lemma normalize_tie_tasks:
  "normalize lib0 0 tie_tasks [] = Inr [(''x'', plain_task ''x'' ''0'' 5), (''y'', plain_task ''y'' ''1'' 5)]"
  by (simp add: tie_tasks_def plain_task_def clean_task_def derive_id_def dict_get_def
      py_or_def py_str_def py_int_def py_float_def py_iter_def parse_due_date_def Let_def default_hours_def
      lib0_def str_nat.simps digit_char_def)

lemma score_tie_tasks:
  "map r_score (score_all w today [(''x'', plain_task ''x'' ''0'' 5), (''y'', plain_task ''y'' ''1'' 5)])
     = [py_round4 (w_importance w / 2 + w_effort w * 4 / 5), py_round4 (w_importance w / 2 + w_effort w * 4 / 5)]"
  by (simp add: score_all_def Let_def score_task_def final_score_def flagged_def aggregate_def
      weighted_sum_def urgency_score_def importance_score_def effort_score_def task_hours_def
      default_hours_def dependency_score_def max_dependents_def dependents_count_def task_deps_def
      count_get_def plain_task_def detect_cycles_def graph_of_def dfs.simps graph_get_def)

theorem C5_sorted_and_stable_witness:
  "\<exists>rs. compute_scores lib0 tie_tasks ''smart_balance'' None 100 = Inr rs
     \<and> derived_ids lib0 0 tie_tasks = [''x'', ''y'']
     \<and> map r_id rs = [''x'', ''y'']
     \<and> (\<exists>k. map r_score rs = [k, k])
     \<and> sorted_wrt (\<lambda>a b. r_score b \<le> r_score a) rs"
proof -
  let ?m = "[(''x'', plain_task ''x'' ''0'' 5), (''y'', plain_task ''y'' ''1'' 5)]"
  let ?us = "score_all (select_weights ''smart_balance'' None) 100 ?m"
  let ?rs = "sort_key (\<lambda>r. - r_score r) ?us"
  have c: "compute_scores lib0 tie_tasks ''smart_balance'' None 100 = Inr ?rs"
    by (simp add: compute_scores_def normalize_tie_tasks)
  have ids: "derived_ids lib0 0 tie_tasks = [''x'', ''y'']"
    by (simp add: tie_tasks_def derive_id_def dict_get_def py_or_def py_str_def)
  then have d: "distinct (derived_ids lib0 0 tie_tasks)" by simp
  obtain k where k: "map r_score ?us = [k, k]"
    using score_tie_tasks by blast
  then have all: "filter (\<lambda>r. r_score r = k) ?us = ?us"
    by (auto simp add: map_eq_Cons_conv)
  have "set ?rs = set ?us" by simp
  moreover have "\<forall>r\<in>set ?us. r_score r = k" using k by (auto simp add: map_eq_Cons_conv)
  ultimately have allr: "filter (\<lambda>r. r_score r = k) ?rs = ?rs"
    by (simp only: filter_id_conv) 
  from C5_sorted_and_stable[OF c d]
  have s: "sorted_wrt (\<lambda>a b. r_score b \<le> r_score a) ?rs"
    and f: "filter (\<lambda>r. r_score r = k) ?rs = filter (\<lambda>r. r_score r = k) ?us"
    unfolding Let_def normalize_tie_tasks by auto
  have eq: "?rs = ?us" using f all allr by simp
  have i: "map r_id ?rs = [''x'', ''y'']" unfolding eq by simp
  have e: "\<exists>k. map r_score ?rs = [k, k]" unfolding eq using k by (rule exI[of _ k])
  show ?thesis
    by (rule exI[of _ ?rs]) (intro conjI c ids i e s)
qed

section \<open>Malformed fields\<close>

text \<open>
  The normalization loop guards \<^verbatim>\<open>int\<close>, \<^verbatim>\<open>float\<close> and the date parser with \<^verbatim>\<open>try\<close>, and
  replaces a missing or false \<^verbatim>\<open>dependencies\<close> by the empty list. It iterates over any other
  \<^verbatim>\<open>dependencies\<close> value unguarded.
\<close>

lemma clean_task_returns:
  "dependencies_usable t \<Longrightarrow> \<exists>c. clean_task lib i t = Inr c"
  by (cases "dict_get t ''dependencies''")
    (auto simp add: dependencies_usable_def clean_task_def py_iter_def py_or_def Let_def)

lemma normalize_returns:
  "\<forall>t\<in>set ts. dependencies_usable t \<Longrightarrow> \<exists>m'. normalize lib i ts m = Inr m'"
proof (induction ts arbitrary: i m)
  case Nil
  then show ?case by simp
next
  case (Cons t ts)
  then obtain c where "clean_task lib i t = Inr c"
    using clean_task_returns[of t lib i] by auto
  then show ?case using Cons by simp
qed

lemma compute_scores_returns:
  "\<forall>t\<in>set tasks. dependencies_usable t \<Longrightarrow> \<exists>rs. compute_scores lib tasks strategy ws today = Inr rs"
  using normalize_returns[of tasks lib 0 "[]"] by (auto simp add: compute_scores_def Let_def)

lemma clean_task_fields:
  assumes "clean_task lib i t = Inr c"
  shows "importance c = Some (case py_int lib (py_or (dict_get t ''importance'') (PInt 5)) of
                             Inr n \<Rightarrow> n | Inl e \<Rightarrow> 5)"
    and "estimated_hours c = Some (case py_float lib (if dict_get t ''estimated_hours'' \<noteq> PNone
                                    then dict_get t ''estimated_hours'' else PFloat default_hours) of
                                   Inr h \<Rightarrow> h | Inl e \<Rightarrow> default_hours)"
    and "due_date c = parse_due_date lib (dict_get t ''due_date'')"
    and "py_iter (py_or (dict_get t ''dependencies'') (PList [])) = Inr xs
           \<Longrightarrow> dependencies c = Some (map (py_str lib) xs)"
proof -
  obtain ys where ys: "py_iter (py_or (dict_get t ''dependencies'') (PList [])) = Inr ys"
    using assms by (cases "py_iter (py_or (dict_get t ''dependencies'') (PList []))")
      (simp_all add: clean_task_def Let_def)
  have c: "c = \<lparr>task_id = derive_id lib i t,
      title = py_or (dict_get t ''title'') (PStr (''Untitled '' @ str_nat i)),
      importance = Some (case py_int lib (py_or (dict_get t ''importance'') (PInt 5)) of
                             Inr n \<Rightarrow> n | Inl e \<Rightarrow> 5),
      estimated_hours = Some (case py_float lib (if dict_get t ''estimated_hours'' \<noteq> PNone
                                    then dict_get t ''estimated_hours'' else PFloat default_hours) of
                                   Inr h \<Rightarrow> h | Inl e \<Rightarrow> default_hours),
      due_date = parse_due_date lib (dict_get t ''due_date''),
      dependencies = Some (map (py_str lib) ys)\<rparr>"
    using assms unfolding clean_task_def Let_def ys by simp
  show "importance c = Some (case py_int lib (py_or (dict_get t ''importance'') (PInt 5)) of
                             Inr n \<Rightarrow> n | Inl e \<Rightarrow> 5)"
    by (subst c) simp
  show "estimated_hours c = Some (case py_float lib (if dict_get t ''estimated_hours'' \<noteq> PNone
                                    then dict_get t ''estimated_hours'' else PFloat default_hours) of
                                   Inr h \<Rightarrow> h | Inl e \<Rightarrow> default_hours)"
    by (subst c) simp
  show "due_date c = parse_due_date lib (dict_get t ''due_date'')"
    by (subst c) simp
  show "dependencies c = Some (map (py_str lib) xs)"
    if "py_iter (py_or (dict_get t ''dependencies'') (PList [])) = Inr xs"
    using that ys by (subst c) simp
qed

lemma invalid_importance_defaults:
  assumes "clean_task lib i t = Inr c"
    and "dict_get t ''importance'' = PNone \<or> py_int lib (dict_get t ''importance'') = Inl e"
  shows "importance c = Some 5"
proof -
  have "py_or (dict_get t ''importance'') (PInt 5) = PInt 5
      \<or> py_or (dict_get t ''importance'') (PInt 5) = dict_get t ''importance''"
    by (simp add: py_or_def)
  then have "(case py_int lib (py_or (dict_get t ''importance'') (PInt 5)) of Inr n \<Rightarrow> n | Inl e \<Rightarrow> 5) = 5"
    using assms(2) by (auto simp add: py_int_def py_or_def)
  then show ?thesis using clean_task_fields(1)[OF assms(1)] by simp
qed

lemma invalid_hours_default:
  assumes "clean_task lib i t = Inr c"
    and "dict_get t ''estimated_hours'' = PNone \<or> py_float lib (dict_get t ''estimated_hours'') = Inl e"
  shows "estimated_hours c = Some 4"
  using clean_task_fields(2)[OF assms(1)] assms(2)
  by (auto simp add: py_float_def default_hours_def)

lemma unparsable_due_date_is_none:
  assumes "clean_task lib i t = Inr c"
    and "dict_get t ''due_date'' = PNone \<or> dict_get t ''due_date'' = PStr []
       \<or> ((\<forall>d. dict_get t ''due_date'' \<noteq> PDate d) \<and> parse_date lib (dict_get t ''due_date'') = None)"
  shows "due_date c = None"
  using clean_task_fields(3)[OF assms(1)] assms(2)
  by (cases "dict_get t ''due_date''") (auto simp add: parse_due_date_def)

lemma missing_dependencies_are_empty:
  assumes "clean_task lib i t = Inr c" and "dict_get t ''dependencies'' = PNone"
  shows "dependencies c = Some []"
  using clean_task_fields(4)[OF assms(1), of "[]"] assms(2)
  by (simp add: py_or_def py_iter_def)

text \<open>
  C7: \<^verbatim>\<open>compute_scores\<close> is meant never to raise for a malformed field of a task. An unparsable
  due date, an invalid importance, invalid estimated hours and missing dependencies do
  degrade to their defaults (the lemmas above), and no input whose \<^verbatim>\<open>dependencies\<close> are
  missing, false or iterable makes it raise. A \<^verbatim>\<open>dependencies\<close> value that is true and not
  iterable, such as the number 5, raises \<^verbatim>\<open>TypeError\<close> out of the normalization loop.
\<close>

theorem C7_non_iterable_dependencies_raise:
  "compute_scores lib0 [bad_deps_task] ''smart_balance'' None 100 = Inl TypeError"
  by (simp add: compute_scores_def bad_deps_task_def clean_task_def py_iter_def py_or_def
      dict_get_def Let_def)

section \<open>Unknown dependency ids\<close>

lemma keys_graph_of [simp]: "fst ` set (graph_of tasks) = fst ` set tasks"
  by (force simp add: graph_of_def)

lemma map_fst_graph_of [simp]: "map fst (graph_of tasks) = map fst tasks"
  by (simp add: graph_of_def case_prod_beta)

lemma keys_prune [simp]: "fst ` set (prune g) = fst ` set g"
  by (force simp add: prune_def)

lemma map_fst_prune [simp]: "map fst (prune g) = map fst g"
  by (simp add: prune_def case_prod_beta)

lemma graph_of_drop_unknown: "graph_of (drop_unknown tasks) = prune (graph_of tasks)"
proof -
  have "graph_of (drop_unknown tasks)
      = map (\<lambda>(k, ds). (k, filter (\<lambda>d. d \<in> fst ` set tasks) ds)) (graph_of tasks)"
    by (auto simp add: graph_of_def drop_unknown_def split: option.splits)
  then show ?thesis
    unfolding prune_def keys_graph_of .
qed

lemma graph_get_prune:
  "graph_get (prune g) n = filter (\<lambda>d. d \<in> fst ` set g) (graph_get g n)"
proof -
  have "map_of (prune g) n = map_option (filter (\<lambda>d. d \<in> fst ` set g)) (map_of g n)"
    unfolding prune_def by (simp add: map_of_map)
  then show ?thesis
    by (simp add: graph_get_def split: option.splits)
qed

lemma dfs_unknown [simp]: "node \<notin> fst ` set g \<Longrightarrow> dfs g node stack st = st"
  by (subst dfs.simps) simp

lemma dfs_prune:
  "dfs g node stack st = dfs (prune g) node stack st"
  "dfs_each g nbs stack st = dfs_each (prune g) (filter (\<lambda>d. d \<in> fst ` set g) nbs) stack st"
proof (induct g node stack st and g nbs stack st rule: dfs_dfs_each.induct)
  case (1 g node stack st)
  show ?case
    unfolding dfs.simps[of g node stack st] dfs.simps[of "prune g" node stack st]
    by (simp add: Let_def graph_get_prune 1)
next
  case (2 g stack st)
  show ?case by simp
next
  case (3 g nb nbs stack st)
  show ?case
  proof (cases "nb \<in> fst ` set g")
    case True
    then show ?thesis using 3 by simp
  next
    case False
    then show ?thesis using 3 by simp
  qed
qed

lemma visit_all_prune: "visit_all g ns st = visit_all (prune g) ns st"
  by (induction ns arbitrary: st) (simp_all add: dfs_prune(1)[symmetric])

lemma detect_cycles_drop_unknown: "detect_cycles (drop_unknown tasks) = detect_cycles tasks"
proof -
  have "map (\<lambda>(tid, task). (tid, False)) (drop_unknown tasks) = map (\<lambda>(tid, task). (tid, False)) tasks"
    by (simp add: drop_unknown_def case_prod_beta)
  then show ?thesis
    unfolding detect_cycles_def graph_of_drop_unknown Let_def
    by (simp add: visit_all_prune[symmetric])
qed

lemma cycles_record_cycle [simp]: "cycles (record_cycle cyc st) = cycles st @ [set cyc]"
  by (simp add: record_cycle_def)

lemma dom_fold_flag: "dom (fold (\<lambda>n m. m(n \<mapsto> True)) cyc m) = dom m \<union> set cyc"
  by (induction cyc arbitrary: m) auto

lemma dom_in_cycle_record_cycle [simp]:
  "dom (in_cycle (record_cycle cyc st)) = dom (in_cycle st) \<union> set cyc"
  by (simp add: record_cycle_def dom_fold_flag)

lemma in_graph_record_cycle:
  "in_graph g st \<Longrightarrow> set cyc \<subseteq> fst ` set g \<Longrightarrow> in_graph g (record_cycle cyc st)"
  by (auto simp add: in_graph_def)

lemma in_graph_visited [simp]: "in_graph g (st\<lparr>visited := v\<rparr>) = in_graph g st"
  by (simp add: in_graph_def)

lemma dfs_in_graph:
  "in_graph g st \<Longrightarrow> set stack \<subseteq> fst ` set g \<Longrightarrow> in_graph g (dfs g node stack st)"
  "in_graph g st \<Longrightarrow> set stack \<subseteq> fst ` set g \<Longrightarrow> in_graph g (dfs_each g nbs stack st)"
proof (induct g node stack st and g nbs stack st rule: dfs_dfs_each.induct)
  case (1 g node stack st)
  have d: "set (dropWhile (\<lambda>n. n \<noteq> node) stack) \<subseteq> fst ` set g"
    using 1(3) set_dropWhileD by fastforce
  show ?case
  proof (cases "node \<in> fst ` set g \<and> visited st node = None")
    case True
    then have "in_graph g (dfs_each g (graph_get g node) (stack @ [node])
        (st\<lparr>visited := (visited st)(node \<mapsto> InProgress)\<rparr>))"
      using 1 by (intro 1(1)) auto
    then show ?thesis
      using True unfolding dfs.simps[of g node stack st] by (simp add: Let_def)
  next
    case False
    then show ?thesis
      using 1(2) d unfolding dfs.simps[of g node stack st]
      by (cases "visited st node") (auto simp add: in_graph_record_cycle intro: colour.exhaust)
  qed
next
  case (2 g stack st)
  then show ?case by simp
next
  case (3 g nb nbs stack st)
  then show ?case by simp
qed

lemma visit_all_in_graph: "in_graph g st \<Longrightarrow> in_graph g (visit_all g ns st)"
  by (induction ns arbitrary: st) (simp_all add: dfs_in_graph)

lemma detect_cycles_in_graph:
  "(\<forall>c\<in>set (fst (detect_cycles tasks)). c \<subseteq> fst ` set tasks)
   \<and> dom (snd (detect_cycles tasks)) = fst ` set tasks"
proof -
  let ?init = "\<lparr>visited = Map.empty, in_cycle = map_of (map (\<lambda>(tid, task). (tid, False)) tasks),
      cycles = []\<rparr>"
  have "dom (map_of (map (\<lambda>(tid, task). (tid, False)) tasks)) = fst ` set tasks"
    by (force simp add: dom_map_of_conv_image_fst)
  then have "in_graph (graph_of tasks) ?init"
    by (simp add: in_graph_def)
  then have "in_graph (graph_of tasks) (visit_all (graph_of tasks) (map fst (graph_of tasks)) ?init)"
    by (rule visit_all_in_graph)
  then show ?thesis
    by (simp add: detect_cycles_def Let_def in_graph_def)
qed

section \<open>Self-dependency\<close>

lemma fold_flag_keeps: "m a = Some True \<Longrightarrow> fold (\<lambda>n m. m(n \<mapsto> True)) cyc m a = Some True"
  by (induction cyc arbitrary: m) auto

lemma fold_flag_sets: "a \<in> set cyc \<Longrightarrow> fold (\<lambda>n m. m(n \<mapsto> True)) cyc m a = Some True"
  by (induction cyc arbitrary: m) (auto simp add: fold_flag_keeps)

lemma self_flagged_record_cycle:
  "self_flagged a st \<Longrightarrow> self_flagged a (record_cycle cyc st)"
  by (simp add: self_flagged_def record_cycle_def fold_flag_keeps)

lemma self_flagged_record_self: "self_flagged a (record_cycle [a] st)"
  by (simp add: self_flagged_def record_cycle_def)

lemma self_flagged_visited [simp]: "self_flagged a (st\<lparr>visited := v\<rparr>) = self_flagged a st"
  by (simp add: self_flagged_def)

lemma dfs_self_flagged_mono:
  "self_flagged a st \<Longrightarrow> self_flagged a (dfs g node stack st)"
  "self_flagged a st \<Longrightarrow> self_flagged a (dfs_each g nbs stack st)"
proof (induct g node stack st and g nbs stack st rule: dfs_dfs_each.induct)
  case (1 g node stack st)
  show ?case
  proof (cases "node \<in> fst ` set g \<and> visited st node = None")
    case True
    then have "self_flagged a (dfs_each g (graph_get g node) (stack @ [node])
        (st\<lparr>visited := (visited st)(node \<mapsto> InProgress)\<rparr>))"
      using 1 by (intro 1(1)) auto
    then show ?thesis
      using True unfolding dfs.simps[of g node stack st] by (simp add: Let_def)
  next
    case False
    then show ?thesis
      using 1(2) unfolding dfs.simps[of g node stack st]
      by (cases "visited st node") (auto simp add: self_flagged_record_cycle intro: colour.exhaust)
  qed
next
  case (2 g stack st)
  then show ?case by simp
next
  case (3 g nb nbs stack st)
  then show ?case by simp
qed

lemma dfs_visited_frozen:
  "visited st x \<noteq> None \<Longrightarrow> visited (dfs g node stack st) x = visited st x"
  "visited st x \<noteq> None \<Longrightarrow> visited (dfs_each g nbs stack st) x = visited st x"
proof (induct g node stack st and g nbs stack st rule: dfs_dfs_each.induct)
  case (1 g node stack st)
  show ?case
  proof (cases "node \<in> fst ` set g \<and> visited st node = None")
    case True
    then have "node \<noteq> x" using 1(2) by auto
    moreover have "visited (dfs_each g (graph_get g node) (stack @ [node])
        (st\<lparr>visited := (visited st)(node \<mapsto> InProgress)\<rparr>)) x
        = visited (st\<lparr>visited := (visited st)(node \<mapsto> InProgress)\<rparr>) x"
      using 1(2) True by (intro 1(1)) auto
    ultimately show ?thesis
      using True unfolding dfs.simps[of g node stack st] by (simp add: Let_def)
  next
    case False
    then show ?thesis
      unfolding dfs.simps[of g node stack st]
      by (cases "visited st node") (auto intro: colour.exhaust)
  qed
next
  case (2 g stack st)
  then show ?case by simp
next
  case (3 g nb nbs stack st)
  then show ?case by simp
qed

lemma dropWhile_to_last: "a \<notin> set stack \<Longrightarrow> dropWhile (\<lambda>n. n \<noteq> a) (stack @ [a]) = [a]"
  by (induction stack) auto

lemma dfs_each_reaches_self:
  assumes "a \<in> fst ` set g" and "a \<in> set nbs"
    and "visited st a = Some InProgress" and "a \<notin> set stack"
  shows "self_flagged a (dfs_each g nbs (stack @ [a]) st)"
  using assms(2,3)
proof (induction nbs arbitrary: st)
  case Nil
  then show ?case by simp
next
  case (Cons nb nbs)
  show ?case
  proof (cases "nb = a")
    case True
    have "dropWhile (\<lambda>n. n \<noteq> a) (stack @ [a]) = [a]"
      using assms(4) by (rule dropWhile_to_last)
    then have "dfs g a (stack @ [a]) st = record_cycle [a] st"
      unfolding dfs.simps[of g a "stack @ [a]" st] using assms(1) Cons.prems(2) by simp
    then show ?thesis
      using True by (simp add: dfs_self_flagged_mono(2) self_flagged_record_self)
  next
    case False
    then have "a \<in> set nbs" using Cons.prems(1) by simp
    moreover have "visited (dfs g nb (stack @ [a]) st) a = Some InProgress"
      using dfs_visited_frozen(1)[of st a g nb "stack @ [a]"] Cons.prems(2) by simp
    ultimately show ?thesis using Cons.IH by simp
  qed
qed

lemma dfs_settled:
  "a \<in> fst ` set g \<Longrightarrow> a \<in> set (graph_get g a) \<Longrightarrow> settled a st
     \<Longrightarrow> (visited st a = None \<longrightarrow> a \<notin> set stack) \<Longrightarrow> settled a (dfs g node stack st)"
  "a \<in> fst ` set g \<Longrightarrow> a \<in> set (graph_get g a) \<Longrightarrow> settled a st
     \<Longrightarrow> (visited st a = None \<longrightarrow> a \<notin> set stack) \<Longrightarrow> settled a (dfs_each g nbs stack st)"
proof (induct g node stack st and g nbs stack st rule: dfs_dfs_each.induct)
  case (1 g node stack st)
  let ?st1 = "st\<lparr>visited := (visited st)(node \<mapsto> InProgress)\<rparr>"
  let ?st2 = "dfs_each g (graph_get g node) (stack @ [node]) ?st1"
  show ?case
  proof (cases "node \<in> fst ` set g \<and> visited st node = None")
    case True
    then have r: "dfs g node stack st = ?st2\<lparr>visited := (visited ?st2)(node \<mapsto> Done)\<rparr>"
      unfolding dfs.simps[of g node stack st] by (simp add: Let_def)
    show ?thesis
    proof (cases "node = a")
      case same: True
      then have "a \<notin> set stack" using True 1(5) by simp
      then have "self_flagged a (dfs_each g (graph_get g a) (stack @ [a])
          (st\<lparr>visited := (visited st)(a \<mapsto> InProgress)\<rparr>))"
        using 1(2,3) by (intro dfs_each_reaches_self) simp_all
      then show ?thesis unfolding r using same by (simp add: settled_def)
    next
      case other: False
      have "settled a ?st1" using 1(4) other by (simp add: settled_def)
      moreover have "visited ?st1 a = None \<longrightarrow> a \<notin> set (stack @ [node])"
        using 1(5) other by simp
      ultimately have "settled a ?st2"
        using True 1(2,3) by (intro 1(1)) auto
      then show ?thesis unfolding r using other by (simp add: settled_def)
    qed
  next
    case False
    then show ?thesis
      using 1(4) unfolding dfs.simps[of g node stack st]
      by (cases "visited st node")
        (auto simp add: settled_def self_flagged_record_cycle intro: colour.exhaust)
  qed
next
  case (2 g stack st)
  then show ?case by simp
next
  case (3 g nb nbs stack st)
  have s: "settled a (dfs g nb stack st)" using 3 by simp
  have "visited (dfs g nb stack st) a = None \<longrightarrow> a \<notin> set stack"
    using 3(6) dfs_visited_frozen(1)[of st a g nb stack] by (cases "visited st a") auto
  then have "settled a (dfs_each g nbs stack (dfs g nb stack st))"
    using 3(3,4) s by (intro 3(2)) auto
  then show ?case by simp
qed

lemma dfs_in_progress_on_stack:
  "(\<forall>x. visited st x = Some InProgress \<longrightarrow> x \<in> set stack)
     \<Longrightarrow> (\<forall>x. visited (dfs g node stack st) x = Some InProgress \<longrightarrow> x \<in> set stack)"
  "(\<forall>x. visited st x = Some InProgress \<longrightarrow> x \<in> set stack)
     \<Longrightarrow> (\<forall>x. visited (dfs_each g nbs stack st) x = Some InProgress \<longrightarrow> x \<in> set stack)"
proof (induct g node stack st and g nbs stack st rule: dfs_dfs_each.induct)
  case (1 g node stack st)
  let ?st1 = "st\<lparr>visited := (visited st)(node \<mapsto> InProgress)\<rparr>"
  let ?st2 = "dfs_each g (graph_get g node) (stack @ [node]) ?st1"
  show ?case
  proof (cases "node \<in> fst ` set g \<and> visited st node = None")
    case True
    then have r: "dfs g node stack st = ?st2\<lparr>visited := (visited ?st2)(node \<mapsto> Done)\<rparr>"
      unfolding dfs.simps[of g node stack st] by (simp add: Let_def)
    have "\<forall>x. visited ?st1 x = Some InProgress \<longrightarrow> x \<in> set (stack @ [node])"
      using 1(2) by simp
    then have "\<forall>x. visited ?st2 x = Some InProgress \<longrightarrow> x \<in> set (stack @ [node])"
      using True by (intro 1(1)) auto
    then show ?thesis unfolding r by auto
  next
    case False
    then show ?thesis
      using 1(2) unfolding dfs.simps[of g node stack st]
      by (cases "visited st node") (auto intro: colour.exhaust)
  qed
next
  case (2 g stack st)
  then show ?case by simp
next
  case (3 g nb nbs stack st)
  then show ?case by simp
qed

lemma dfs_marks_done:
  "node \<in> fst ` set g \<Longrightarrow> visited st node = None \<Longrightarrow> visited (dfs g node stack st) node = Some Done"
  unfolding dfs.simps[of g node stack st] by (simp add: Let_def)

lemma visit_all_settled:
  assumes "a \<in> fst ` set g" and "a \<in> set (graph_get g a)"
  shows "settled a st \<Longrightarrow> settled a (visit_all g ns st)"
proof (induction ns arbitrary: st)
  case Nil
  then show ?case by simp
next
  case (Cons n ns)
  have "settled a (dfs g n [] st)"
    using assms Cons.prems by (intro dfs_settled(1)) simp_all
  then show ?case using Cons by simp
qed

lemma visit_all_none_in_progress:
  "(\<forall>x. visited st x \<noteq> Some InProgress) \<Longrightarrow> (\<forall>x. visited (visit_all g ns st) x \<noteq> Some InProgress)"
proof (induction ns arbitrary: st)
  case Nil
  then show ?case by simp
next
  case (Cons n ns)
  have "\<forall>x. visited (dfs g n [] st) x = Some InProgress \<longrightarrow> x \<in> set []"
    using Cons.prems by (intro dfs_in_progress_on_stack(1)) simp
  then have "\<forall>x. visited (dfs g n [] st) x \<noteq> Some InProgress" by simp
  then show ?case using Cons by simp
qed

lemma visit_all_keeps_visited:
  "visited st x \<noteq> None \<Longrightarrow> visited (visit_all g ns st) x \<noteq> None"
  by (induction ns arbitrary: st) (simp_all add: dfs_visited_frozen(1))

lemma visit_all_visits:
  "n \<in> set ns \<Longrightarrow> n \<in> fst ` set g \<Longrightarrow> visited (visit_all g ns st) n \<noteq> None"
proof (induction ns arbitrary: st)
  case Nil
  then show ?case by simp
next
  case (Cons m ns)
  show ?case
  proof (cases "m = n")
    case True
    have a: "visited (visit_all g ns (dfs g n [] st)) n \<noteq> None" if "visited st n = None"
      using that Cons.prems(2) by (intro visit_all_keeps_visited) (simp add: dfs_marks_done)
    have b: "visited (visit_all g ns st) n \<noteq> None" if "visited st n \<noteq> None"
      using that by (rule visit_all_keeps_visited)
    show ?thesis using True a b by auto
  next
    case False
    then show ?thesis using Cons by simp
  qed
qed

lemma graph_get_graph_of:
  "map_of tasks a = Some t \<Longrightarrow> graph_get (graph_of tasks) a = task_deps t"
proof -
  assume "map_of tasks a = Some t"
  moreover have "map_of (graph_of tasks) a
      = map_option (\<lambda>task. case dependencies task of None \<Rightarrow> [] | Some ds \<Rightarrow> ds) (map_of tasks a)"
    unfolding graph_of_def by (simp add: map_of_map)
  ultimately show ?thesis by (simp add: graph_get_def task_deps_def)
qed

text \<open>
  C8: when the task stored under \<open>a\<close> lists \<open>a\<close> among its own dependencies, the one-element
  set \<open>{a}\<close> is among the cycle sets \<open>detect_cycles\<close> returns and \<open>in_cycle\<close> maps \<open>a\<close> to true.
\<close>

theorem C8_self_dependency:
  assumes "map_of tasks a = Some t" and "a \<in> set (task_deps t)"
  shows "{a} \<in> set (fst (detect_cycles tasks)) \<and> snd (detect_cycles tasks) a = Some True"
proof -
  let ?g = "graph_of tasks"
  let ?init = "\<lparr>visited = Map.empty, in_cycle = map_of (map (\<lambda>(tid, task). (tid, False)) tasks),
      cycles = []\<rparr>"
  let ?st = "visit_all ?g (map fst ?g) ?init"
  have key: "a \<in> fst ` set ?g"
    using assms(1) by (auto dest: map_of_SomeD intro: rev_image_eqI)
  have self: "a \<in> set (graph_get ?g a)"
    using assms by (simp add: graph_get_graph_of)
  have "settled a ?init" by (simp add: settled_def)
  then have s: "settled a ?st" by (rule visit_all_settled[OF key self])
  have "\<forall>x. visited ?init x \<noteq> Some InProgress" by simp
  then have "\<forall>x. visited ?st x \<noteq> Some InProgress" by (rule visit_all_none_in_progress)
  moreover have "visited ?st a \<noteq> None"
    using key by (intro visit_all_visits) simp_all
  ultimately obtain c where c: "visited ?st a = Some c" "c \<noteq> InProgress"
    by (cases "visited ?st a") auto
  then have "visited ?st a = Some Done"
    by (cases c) simp_all
  then have "self_flagged a ?st" using s by (simp add: settled_def)
  then show ?thesis
    by (simp add: detect_cycles_def Let_def self_flagged_def)
qed

theorem C8_self_dependency_witness:
  "map_of self_map ''A'' \<noteq> None \<and> ''A'' \<in> set (task_deps (the (map_of self_map ''A'')))
   \<and> {''A''} \<in> set (fst (detect_cycles self_map)) \<and> snd (detect_cycles self_map) ''A'' = Some True"
proof -
  obtain t where t: "map_of self_map ''A'' = Some t" "''A'' \<in> set (task_deps t)"
    by (simp add: self_map_def task_deps_def)
  from C8_self_dependency[OF t] t show ?thesis by simp
qed

section \<open>The search under a recursion limit\<close>

lemma dfs_lim_refines:
  "dfs_lim d g node stack st = Inl RecursionError \<or> dfs_lim d g node stack st = Inr (dfs g node stack st)"
  "dfs_each_lim d g nbs stack st = Inl RecursionError
     \<or> dfs_each_lim d g nbs stack st = Inr (dfs_each g nbs stack st)"
proof (induct d g node stack st and d g nbs stack st rule: dfs_lim_dfs_each_lim.induct)
  case (1 g node stack st)
  show ?case by simp
next
  case (2 d g node stack st)
  show ?case
  proof (cases "node \<in> fst ` set g \<and> visited st node = None")
    case True
    then show ?thesis
      using 2 unfolding dfs.simps[of g node stack st]
      by (auto simp add: Let_def)
  next
    case False
    then show ?thesis
      unfolding dfs.simps[of g node stack st]
      by (cases "visited st node") (auto intro: colour.exhaust)
  qed
next
  case (3 d g stack st)
  show ?case by simp
next
  case (4 d g nb nbs stack st)
  show ?case
  proof (cases "dfs_lim d g nb stack st")
    case (Inl e)
    then show ?thesis using 4(1) by simp
  next
    case (Inr st')
    then have "st' = dfs g nb stack st" using 4(1) by simp
    then show ?thesis using Inr 4(2)[OF Inr] by simp
  qed
qed

lemma unvisited_dfs_le:
  "unvisited g (dfs g node stack st) \<le> unvisited g st"
  by (rule unvisited_mono) (simp add: dfs_visited_frozen(1))

lemma dfs_lim_enough:
  "\<forall>d. unvisited g st < d \<longrightarrow> dfs_lim d g node stack st = Inr (dfs g node stack st)"
  "\<forall>d. unvisited g st < d \<longrightarrow> dfs_each_lim d g nbs stack st = Inr (dfs_each g nbs stack st)"
proof (induct g node stack st and g nbs stack st rule: dfs_dfs_each.induct)
  case (1 g node stack st)
  show ?case
  proof (intro allI impI)
    fix d assume d: "unvisited g st < d"
    then obtain d' where d': "d = Suc d'" by (cases d) auto
    let ?st1 = "st\<lparr>visited := (visited st)(node \<mapsto> InProgress)\<rparr>"
    show "dfs_lim d g node stack st = Inr (dfs g node stack st)"
    proof (cases "node \<in> fst ` set g \<and> visited st node = None")
      case True
      then have "unvisited g ?st1 < unvisited g st" by (intro unvisited_mark) simp_all
      then have "unvisited g ?st1 < d'" using d d' by simp
      moreover have "\<forall>d. unvisited g ?st1 < d \<longrightarrow>
          dfs_each_lim d g (graph_get g node) (stack @ [node]) ?st1
          = Inr (dfs_each g (graph_get g node) (stack @ [node]) ?st1)"
        using True by (intro 1) auto
      ultimately have "dfs_each_lim d' g (graph_get g node) (stack @ [node]) ?st1
          = Inr (dfs_each g (graph_get g node) (stack @ [node]) ?st1)" by blast
      then show ?thesis
        using True unfolding d' dfs.simps[of g node stack st] by (simp add: Let_def)
    next
      case False
      then show ?thesis
        unfolding d' dfs.simps[of g node stack st]
        by (cases "visited st node") (auto intro: colour.exhaust)
    qed
  qed
next
  case (2 g stack st)
  show ?case by simp
next
  case (3 g nb nbs stack st)
  show ?case
  proof (intro allI impI)
    fix d assume d: "unvisited g st < d"
    then have a: "dfs_lim d g nb stack st = Inr (dfs g nb stack st)" using 3(1) by blast
    have "unvisited g (dfs g nb stack st) < d" using d unvisited_dfs_le[of g nb stack st] by simp
    then have "dfs_each_lim d g nbs stack (dfs g nb stack st) = Inr (dfs_each g nbs stack (dfs g nb stack st))"
      using 3(2) by blast
    then show "dfs_each_lim d g (nb # nbs) stack st = Inr (dfs_each g (nb # nbs) stack st)"
      using a by simp
  qed
qed

lemma visit_all_lim_refines:
  "visit_all_lim d g ns st = Inl RecursionError \<or> visit_all_lim d g ns st = Inr (visit_all g ns st)"
proof (induction ns arbitrary: st)
  case Nil
  show ?case by simp
next
  case (Cons n ns)
  show ?case
    using dfs_lim_refines(1)[of d g n "[]" st] Cons[of st] Cons[of "dfs g n [] st"]
    by auto
qed

lemma unvisited_visit_all_le: "unvisited g (visit_all g ns st) \<le> unvisited g st"
  by (rule unvisited_mono) (rule visit_all_keeps_visited)

lemma visit_all_lim_enough:
  "unvisited g st < d \<Longrightarrow> visit_all_lim d g ns st = Inr (visit_all g ns st)"
proof (induction ns arbitrary: st)
  case Nil
  show ?case by simp
next
  case (Cons n ns)
  have a: "dfs_lim d g n [] st = Inr (dfs g n [] st)"
    using dfs_lim_enough(1)[of g st n "[]"] Cons.prems by blast
  have "unvisited g (dfs g n [] st) < d"
    using Cons.prems unvisited_dfs_le[of g n "[]" st] by simp
  then have "visit_all_lim d g ns (dfs g n [] st) = Inr (visit_all g ns (dfs g n [] st))"
    by (rule Cons.IH)
  then show ?case using a Cons.IH[OF Cons.prems] by simp
qed

lemma unvisited_initial: "unvisited g \<lparr>visited = Map.empty, in_cycle = ic, cycles = cs\<rparr> \<le> length g"
proof -
  have "unvisited g \<lparr>visited = Map.empty, in_cycle = ic, cycles = cs\<rparr> = card (fst ` set g)"
    by (simp add: unvisited_def)
  also have "\<dots> \<le> card (set g)" by (rule card_image_le) simp
  also have "\<dots> \<le> length g" by (rule card_length)
  finally show ?thesis .
qed

lemma detect_cycles_lim_refines:
  "detect_cycles_lim depth tasks = Inl RecursionError
     \<or> detect_cycles_lim depth tasks = Inr (detect_cycles tasks)"
  using visit_all_lim_refines[of depth "graph_of tasks" "map fst (graph_of tasks)"
      "\<lparr>visited = Map.empty, in_cycle = map_of (map (\<lambda>(tid, task). (tid, False)) tasks), cycles = []\<rparr>"]
  by (auto simp add: detect_cycles_lim_def detect_cycles_def Let_def)

lemma detect_cycles_lim_enough:
  assumes "length tasks < depth"
  shows "detect_cycles_lim depth tasks = Inr (detect_cycles tasks)"
proof -
  let ?init = "\<lparr>visited = Map.empty, in_cycle = map_of (map (\<lambda>(tid, task). (tid, False)) tasks),
      cycles = []\<rparr>"
  have "unvisited (graph_of tasks) ?init \<le> length (graph_of tasks)" by (rule unvisited_initial)
  then have "unvisited (graph_of tasks) ?init < depth" using assms by (simp add: graph_of_def)
  then have "visit_all_lim depth (graph_of tasks) (map fst (graph_of tasks)) ?init
      = Inr (visit_all (graph_of tasks) (map fst (graph_of tasks)) ?init)"
    by (rule visit_all_lim_enough)
  then show ?thesis
    by (simp add: detect_cycles_lim_def detect_cycles_def Let_def)
qed

lemma fst_link [simp]: "fst (link tid ds) = tid"
  by (simp add: link_def)

lemma chain_node_eq [simp]: "chain_node i = chain_node j \<longleftrightarrow> i = j"
proof
  assume "chain_node i = chain_node j"
  then have "length (chain_node i) = length (chain_node j)" by simp
  then show "i = j" by (simp add: chain_node_def)
qed simp

lemma ghost_not_chain_node [simp]: "''ghost'' \<noteq> chain_node i"
  by (simp add: chain_node_def)

lemma keys_chain_from: "fst ` set (chain_from i k tail) = chain_node ` {i..<i + k}"
proof (induction k arbitrary: i)
  case 0
  show ?case by simp
next
  case (Suc k)
  have "{i..<i + Suc k} = insert i {Suc i..<Suc i + k}" by auto
  then show ?case using Suc[of "Suc i"] by (simp add: link_def)
qed

lemma chain_node_in_chain [simp]: "chain_node j \<in> fst ` set (chain_from i k tail) \<longleftrightarrow> i \<le> j \<and> j < i + k"
  by (auto simp add: keys_chain_from)

lemma ghost_not_in_chain [simp]: "''ghost'' \<notin> fst ` set (chain_from i k tail)"
  by (auto simp add: keys_chain_from)

lemma graph_get_chain_from:
  "i \<le> j \<Longrightarrow> j < i + k \<Longrightarrow>
     graph_get (graph_of (chain_from i k tail)) (chain_node j) = (if Suc j = i + k then tail else [chain_node (Suc j)])"
proof (induction k arbitrary: i)
  case 0
  then show ?case by simp
next
  case (Suc k)
  show ?case
  proof (cases "j = i")
    case True
    then show ?thesis by (auto simp add: graph_get_def graph_of_def link_def)
  next
    case False
    then have "Suc i \<le> j" "j < Suc i + k" using Suc.prems by simp_all
    from Suc.IH[OF this] have "graph_get (graph_of (chain_from (Suc i) k tail)) (chain_node j)
        = (if Suc j = Suc i + k then tail else [chain_node (Suc j)])" .
    moreover have "graph_get (graph_of (chain_from i (Suc k) tail)) (chain_node j)
        = graph_get (graph_of (chain_from (Suc i) k tail)) (chain_node j)"
      using False by (simp add: graph_get_def graph_of_def link_def)
    ultimately show ?thesis by simp
  qed
qed

lemma graph_get_chain:
  "j < n \<Longrightarrow> graph_get (graph_of (chain_tasks n tail)) (chain_node j) = (if Suc j = n then tail else [chain_node (Suc j)])"
  using graph_get_chain_from[of 0 j n tail] by (simp add: chain_tasks_def)

lemma chain_node_key [simp]: "chain_node j \<in> fst ` set (chain_tasks n tail) \<longleftrightarrow> j < n"
  by (simp add: chain_tasks_def)

lemma ghost_key_chain [simp]: "''ghost'' \<notin> fst ` set (chain_tasks n tail)"
  by (simp add: chain_tasks_def)

lemma chain_overflow:
  "i < n \<Longrightarrow> d \<le> n - i \<Longrightarrow> \<forall>j. i \<le> j \<and> j < n \<longrightarrow> visited st (chain_node j) = None \<Longrightarrow>
     dfs_lim d (graph_of (chain_tasks n [''ghost''])) (chain_node i) stack st = Inl RecursionError"
proof (induction d arbitrary: i stack st)
  case 0
  show ?case by simp
next
  case (Suc d)
  let ?g = "graph_of (chain_tasks n [''ghost''])"
  let ?st1 = "st\<lparr>visited := (visited st)(chain_node i \<mapsto> InProgress)\<rparr>"
  have v: "visited st (chain_node i) = None" using Suc.prems by simp
  have "dfs_each_lim d ?g (graph_get ?g (chain_node i)) (stack @ [chain_node i]) ?st1 = Inl RecursionError"
  proof (cases "Suc i = n")
    case True
    then have "d = 0" using Suc.prems(2) by simp
    then show ?thesis using True Suc.prems(1) by (simp add: graph_get_chain)
  next
    case False
    then have "Suc i < n" using Suc.prems(1) by simp
    moreover have "d \<le> n - Suc i" using Suc.prems(2) by simp
    moreover have "\<forall>j. Suc i \<le> j \<and> j < n \<longrightarrow> visited ?st1 (chain_node j) = None"
      using Suc.prems(3) by simp
    ultimately have "dfs_lim d ?g (chain_node (Suc i)) (stack @ [chain_node i]) ?st1 = Inl RecursionError"
      by (rule Suc.IH)
    then show ?thesis using False Suc.prems(1) by (simp add: graph_get_chain)
  qed
  then show ?case using v Suc.prems(1) by simp
qed

lemma chain_fits:
  "i < n \<Longrightarrow> n - i \<le> d \<Longrightarrow> \<forall>j. i \<le> j \<and> j < n \<longrightarrow> visited st (chain_node j) = None \<Longrightarrow>
     \<exists>st'. dfs_lim d (graph_of (chain_tasks n [])) (chain_node i) stack st = Inr st'
        \<and> (\<forall>j. i \<le> j \<and> j < n \<longrightarrow> visited st' (chain_node j) \<noteq> None)"
proof (induction d arbitrary: i stack st)
  case 0
  then show ?case by simp
next
  case (Suc d)
  let ?g = "graph_of (chain_tasks n [])"
  let ?st1 = "st\<lparr>visited := (visited st)(chain_node i \<mapsto> InProgress)\<rparr>"
  have v: "visited st (chain_node i) = None" using Suc.prems by simp
  have "\<exists>st2. dfs_each_lim d ?g (graph_get ?g (chain_node i)) (stack @ [chain_node i]) ?st1 = Inr st2
      \<and> (\<forall>j. Suc i \<le> j \<and> j < n \<longrightarrow> visited st2 (chain_node j) \<noteq> None)"
  proof (cases "Suc i = n")
    case True
    then show ?thesis using Suc.prems(1) by (simp add: graph_get_chain)
  next
    case False
    then have "Suc i < n" using Suc.prems(1) by simp
    moreover have "n - Suc i \<le> d" using Suc.prems(2) by simp
    moreover have "\<forall>j. Suc i \<le> j \<and> j < n \<longrightarrow> visited ?st1 (chain_node j) = None"
      using Suc.prems(3) by simp
    ultimately obtain st2 where "dfs_lim d ?g (chain_node (Suc i)) (stack @ [chain_node i]) ?st1 = Inr st2"
      "\<forall>j. Suc i \<le> j \<and> j < n \<longrightarrow> visited st2 (chain_node j) \<noteq> None"
      using Suc.IH[of "Suc i" ?st1 "stack @ [chain_node i]"] by blast
    then show ?thesis using False Suc.prems(1) by (simp add: graph_get_chain)
  qed
  then obtain st2 where st2: "dfs_each_lim d ?g (graph_get ?g (chain_node i)) (stack @ [chain_node i]) ?st1 = Inr st2"
    "\<forall>j. Suc i \<le> j \<and> j < n \<longrightarrow> visited st2 (chain_node j) \<noteq> None" by blast
  have "dfs_lim (Suc d) ?g (chain_node i) stack st = Inr (st2\<lparr>visited := (visited st2)(chain_node i \<mapsto> Done)\<rparr>)"
    using v Suc.prems(1) st2(1) by simp
  moreover have "\<forall>j. i \<le> j \<and> j < n \<longrightarrow> visited (st2\<lparr>visited := (visited st2)(chain_node i \<mapsto> Done)\<rparr>) (chain_node j) \<noteq> None"
  proof (intro allI impI)
    fix j assume j: "i \<le> j \<and> j < n"
    show "visited (st2\<lparr>visited := (visited st2)(chain_node i \<mapsto> Done)\<rparr>) (chain_node j) \<noteq> None"
    proof (cases "j = i")
      case True
      then show ?thesis by simp
    next
      case False
      then have "Suc i \<le> j \<and> j < n" using j by simp
      then show ?thesis using st2(2) False by simp
    qed
  qed
  ultimately show ?case by blast
qed

lemma visit_all_lim_skip:
  "\<forall>n\<in>set ns. visited st n \<noteq> None \<Longrightarrow> visit_all_lim d g ns st = Inr st"
  by (induction ns) auto

lemma map_fst_chain_from: "map fst (chain_from i k tail) = map chain_node [i..<i + k]"
proof (induction k arbitrary: i)
  case 0
  show ?case by simp
next
  case (Suc k)
  have "[i..<i + Suc k] = i # [Suc i..<Suc i + k]" by (simp add: upt_rec)
  then show ?case using Suc[of "Suc i"] by (simp add: link_def)
qed

lemma long_chain_with_unknown_overflows:
  assumes "0 < n"
  shows "detect_cycles_lim n (chain_tasks n [''ghost'']) = Inl RecursionError"
proof -
  let ?g = "graph_of (chain_tasks n [''ghost''])"
  obtain k where k: "n = Suc k" using assms by (cases n) auto
  have roots: "map fst ?g = chain_node 0 # map chain_node [1..<n]"
    by (simp add: chain_tasks_def map_fst_chain_from k upt_rec[of 0])
  have "dfs_lim n ?g (chain_node 0) [] st = Inl RecursionError" if "visited st = Map.empty" for st
    using assms that by (intro chain_overflow) simp_all
  then show ?thesis
    unfolding detect_cycles_lim_def Let_def roots by simp
qed

lemma long_chain_without_unknown_fits:
  assumes "0 < n"
  shows "detect_cycles_lim n (chain_tasks n []) = Inr (detect_cycles (chain_tasks n []))"
proof -
  let ?g = "graph_of (chain_tasks n [])"
  let ?init = "\<lparr>visited = Map.empty,
      in_cycle = map_of (map (\<lambda>(tid, task). (tid, False)) (chain_tasks n [])), cycles = []\<rparr>"
  obtain k where k: "n = Suc k" using assms by (cases n) auto
  have roots: "map fst ?g = chain_node 0 # map chain_node [1..<n]"
    by (simp add: chain_tasks_def map_fst_chain_from k upt_rec[of 0])
  obtain st' where st': "dfs_lim n ?g (chain_node 0) [] ?init = Inr st'"
    "\<forall>j. 0 \<le> j \<and> j < n \<longrightarrow> visited st' (chain_node j) \<noteq> None"
    using chain_fits[of 0 n n ?init "[]"] assms by auto
  have "visit_all_lim n ?g (map chain_node [1..<n]) st' = Inr st'"
    using st'(2) by (intro visit_all_lim_skip) auto
  then have "visit_all_lim n ?g (map fst ?g) ?init = Inr st'"
    unfolding roots using st'(1) by simp
  then have "detect_cycles_lim n (chain_tasks n []) \<noteq> Inl RecursionError"
    by (simp add: detect_cycles_lim_def Let_def)
  then show ?thesis using detect_cycles_lim_refines[of n "chain_tasks n []"] by simp
qed

lemma drop_unknown_chain_from:
  assumes "\<And>j. i \<le> j \<Longrightarrow> j < i + k \<Longrightarrow> P (chain_node j)" and "\<not> P ''ghost''"
  shows "map (\<lambda>(tid, t). (tid, t\<lparr>dependencies := map_option (filter P) (dependencies t)\<rparr>))
           (chain_from i k [''ghost'']) = chain_from i k []"
  using assms(1)
proof (induction k arbitrary: i)
  case 0
  show ?case by simp
next
  case (Suc k)
  have "map (\<lambda>(tid, t). (tid, t\<lparr>dependencies := map_option (filter P) (dependencies t)\<rparr>))
           (chain_from (Suc i) k [''ghost'']) = chain_from (Suc i) k []"
    using Suc.prems by (intro Suc.IH) simp_all
  moreover have "P (chain_node (Suc i))" if "k \<noteq> 0"
    using that Suc.prems[of "Suc i"] by simp
  ultimately show ?case using assms(2) by (simp add: link_def)
qed

lemma drop_unknown_chain: "drop_unknown (chain_tasks n [''ghost'']) = chain_tasks n []"
  unfolding drop_unknown_def chain_tasks_def
  by (rule drop_unknown_chain_from) simp_all

lemma dfs_lim_prune:
  "dfs_lim d g node stack st = Inr x \<Longrightarrow> dfs_lim d (prune g) node stack st = Inr x"
  "dfs_each_lim d g nbs stack st = Inr x \<Longrightarrow>
     dfs_each_lim d (prune g) (filter (\<lambda>n. n \<in> fst ` set g) nbs) stack st = Inr x"
proof (induct d g node stack st and d g nbs stack st arbitrary: x and x rule: dfs_lim_dfs_each_lim.induct)
  case (1 g node stack st)
  then show ?case by simp
next
  case (2 d g node stack st)
  show ?case
  proof (cases "node \<in> fst ` set g \<and> visited st node = None")
    case True
    then obtain st2 where st2: "dfs_each_lim d g (graph_get g node) (stack @ [node])
        (st\<lparr>visited := (visited st)(node \<mapsto> InProgress)\<rparr>) = Inr st2"
      and x: "x = st2\<lparr>visited := (visited st2)(node \<mapsto> Done)\<rparr>"
      using 2(2) by (auto split: sum.splits)
    have "dfs_each_lim d (prune g) (filter (\<lambda>n. n \<in> fst ` set g) (graph_get g node)) (stack @ [node])
        (st\<lparr>visited := (visited st)(node \<mapsto> InProgress)\<rparr>) = Inr st2"
      using True st2 by (intro 2(1)) auto
    then show ?thesis using True x by (simp add: graph_get_prune)
  next
    case False
    show ?thesis
    proof (cases "node \<in> fst ` set g")
      case out: False
      then show ?thesis using 2(2) by simp
    next
      case True
      then obtain c where c: "visited st node = Some c" using False by auto
      then show ?thesis using True 2(2) by (cases c) simp_all
    qed
  qed
next
  case (3 d g stack st)
  then show ?case by simp
next
  case (4 d g nb nbs stack st)
  from 4(3) obtain st' where st': "dfs_lim d g nb stack st = Inr st'"
    and r: "dfs_each_lim d g nbs stack st' = Inr x"
    by (auto split: sum.splits)
  have rest: "dfs_each_lim d (prune g) (filter (\<lambda>n. n \<in> fst ` set g) nbs) stack st' = Inr x"
    using st' r by (rule 4(2))
  show ?case
  proof (cases "nb \<in> fst ` set g")
    case True
    have "dfs_lim d (prune g) nb stack st = Inr st'" using st' by (rule 4(1))
    then show ?thesis using True rest by simp
  next
    case False
    then have "st' = st" using st' by (cases d) simp_all
    then show ?thesis using False rest by simp
  qed
qed

lemma visit_all_lim_prune:
  "visit_all_lim d g ns st = Inr x \<Longrightarrow> visit_all_lim d (prune g) ns st = Inr x"
proof (induction ns arbitrary: st)
  case Nil
  then show ?case by simp
next
  case (Cons n ns)
  show ?case
  proof (cases "visited st n = None")
    case True
    then obtain st' where st': "dfs_lim d g n [] st = Inr st'" and r: "visit_all_lim d g ns st' = Inr x"
      using Cons.prems by (auto split: sum.splits)
    then show ?thesis using True dfs_lim_prune(1)[OF st'] Cons.IH[OF r] by simp
  next
    case False
    then obtain c where c: "visited st n = Some c" by auto
    then have "visit_all_lim d g ns st = Inr x" using Cons.prems by simp
    then have "visit_all_lim d (prune g) ns st = Inr x" by (rule Cons.IH)
    then show ?thesis using c by simp
  qed
qed

lemma detect_cycles_lim_drop_unknown:
  assumes "detect_cycles_lim depth tasks = Inr r"
  shows "detect_cycles_lim depth (drop_unknown tasks) = Inr r"
proof -
  let ?init = "\<lparr>visited = Map.empty, in_cycle = map_of (map (\<lambda>(tid, task). (tid, False)) tasks),
      cycles = []\<rparr>"
  obtain st where st: "visit_all_lim depth (graph_of tasks) (map fst (graph_of tasks)) ?init = Inr st"
    and r: "r = (cycles st, in_cycle st)"
    using assms by (auto simp add: detect_cycles_lim_def Let_def split: sum.splits)
  have m: "map (\<lambda>(tid, task). (tid, False)) (drop_unknown tasks) = map (\<lambda>(tid, task). (tid, False)) tasks"
    by (simp add: drop_unknown_def case_prod_beta)
  have "visit_all_lim depth (prune (graph_of tasks)) (map fst (graph_of tasks)) ?init = Inr st"
    using st by (rule visit_all_lim_prune)
  then show ?thesis
    unfolding detect_cycles_lim_def Let_def graph_of_drop_unknown m by (simp add: r)
qed




end
